theory Spec2Isabelle
  imports Complex_Main "HOL-Library.Product_Lexorder"
begin

section \<open>Data model\<close>

text \<open>
  A shallow embedding of the Star Power engine of CHOpt: \<^verbatim>\<open>sp.hpp\<close>, \<^verbatim>\<open>sp.cpp\<close>,
  \<^verbatim>\<open>time.cpp\<close> and the constructors of \<^verbatim>\<open>chart.cpp\<close>.

  Numbers. The C++ \<^verbatim>\<open>double\<close> and \<^verbatim>\<open>float\<close> values are idealised as exact reals: no
  rounding, no infinities, no NaN. The integer fields of the chart structures (ticks, lengths,
  numerators, denominators) are mathematical integers; their declarations are in headers that
  are not among the sources at hand, where \<^verbatim>\<open>chart.cpp\<close> fills them from \<^verbatim>\<open>uint32_t\<close>
  values and \<^verbatim>\<open>sp.cpp\<close> reads them as \<^verbatim>\<open>int\<close>. The one place where the width matters,
  the unsigned subtraction in the constructor of \<^verbatim>\<open>TimeConverter\<close>, has its wrap-around
  modulo \<open>2 ^ 32\<close> written out.

  The wrappers \<^verbatim>\<open>Beat\<close>, \<^verbatim>\<open>Measure\<close> and \<^verbatim>\<open>Second\<close> of \<^verbatim>\<open>time.hpp\<close> hold one
  \<^verbatim>\<open>double\<close> each and are plain reals here. Field names carry a prefix where two structures
  of the source share a field name.
\<close>

datatype error = Invalid_argument | Assertion_failure | Undefined_behaviour

record Position =
  beat :: real
  measure_pos :: real

record TimeSignature =
  ts_position :: int
  numerator :: int
  denominator :: int

record BPM =
  bpm_position :: int
  bpm :: int

record StarPower =
  sp_position :: int
  sp_length :: int

record 'c Note =
  note_position :: int
  note_length :: int
  colour :: 'c
  is_forced :: bool
  is_tap :: bool


record SyncTrack =
  m_time_sigs :: "TimeSignature list"
  m_bpms :: "BPM list"

section \<open>SpBar\<close>

record SpBar =
  m_min :: real
  m_max :: real

text \<open>The constructor \<^verbatim>\<open>SpBar(double min, double max)\<close> stores both arguments as given.\<close>

definition SpBar_ctor :: "real \<Rightarrow> real \<Rightarrow> SpBar" where
  "SpBar_ctor mn mx = \<lparr>m_min = mn, m_max = mx\<rparr>"

definition SP_PHRASE_AMOUNT :: real where
  "SP_PHRASE_AMOUNT = 0.25"

definition add_phrase :: "SpBar \<Rightarrow> SpBar" where
  "add_phrase b =
     (let mn = m_min b + SP_PHRASE_AMOUNT;
          mx = m_max b + SP_PHRASE_AMOUNT
      in \<lparr>m_min = min mn 1, m_max = min mx 1\<rparr>)"

definition MINIMUM_SP_AMOUNT :: real where
  "MINIMUM_SP_AMOUNT = 0.5"

definition full_enough_to_activate :: "SpBar \<Rightarrow> bool" where
  "full_enough_to_activate b = (m_max b \<ge> MINIMUM_SP_AMOUNT)"

text \<open>The predicate of the specification: \<open>0 \<le> min \<le> max \<le> 1\<close>.\<close>

definition sp_bar_ok :: "SpBar \<Rightarrow> bool" where
  "sp_bar_ok b = (0 \<le> m_min b \<and> m_min b \<le> m_max b \<and> m_max b \<le> 1)"

text \<open>
  The bars reachable through the public operations: a constructed bar, and \<^verbatim>\<open>add_phrase\<close>
  applied to a reachable bar.
\<close>

inductive reachable_bar :: "SpBar \<Rightarrow> bool" where
  ctor: "reachable_bar (SpBar_ctor mn mx)"
| phrase: "reachable_bar b \<Longrightarrow> reachable_bar (add_phrase b)"

text \<open>The same, from a constructor call whose arguments satisfy the predicate.\<close>

inductive reachable_from_ok :: "SpBar \<Rightarrow> bool" where
  ctor_ok: "0 \<le> mn \<Longrightarrow> mn \<le> mx \<Longrightarrow> mx \<le> 1 \<Longrightarrow> reachable_from_ok (SpBar_ctor mn mx)"
| phrase_ok: "reachable_from_ok b \<Longrightarrow> reachable_from_ok (add_phrase b)"

section \<open>Chart structures: SongHeader, SyncTrack, NoteTrack\<close>




text \<open>
  \<^verbatim>\<open>NoteTrack::NoteTrack\<close>. The comparison of the stable sort is
  \<^verbatim>\<open>std::tie(position, colour) < std::tie(position, colour)\<close>, the lexicographic order of the
  pair. The enumeration of colours is declared in a header that is not part of the sources at
  hand, so the colour is any linearly ordered type. A stable sort is determined by its key, and
  \<^const>\<open>sort_key\<close> is one.
\<close>

definition note_key :: "'c Note \<Rightarrow> int \<times> 'c" where
  "note_key n = (note_position n, colour n)"

text \<open>
  The loop over the sorted notes; \<open>prev_note\<close> is the first argument, the notes from \<open>p\<close> on
  the second, the result lists the calls of \<^verbatim>\<open>push_back\<close> in order, the one after the loop
  included.
\<close>

fun dedup_loop :: "'c Note \<Rightarrow> 'c Note list \<Rightarrow> 'c Note list" where
  "dedup_loop prev_note [] = [prev_note]"
| "dedup_loop prev_note (p # ps) =
     (if note_position p \<noteq> note_position prev_note \<or> colour p \<noteq> colour prev_note
      then prev_note # dedup_loop p ps
      else dedup_loop p ps)"

definition NoteTrack_notes :: "('c::linorder) Note list \<Rightarrow> 'c Note list" where
  "NoteTrack_notes notes =
     (let sorted_notes = sort_key note_key notes
      in case sorted_notes of
           [] \<Rightarrow> []
         | first_note # _ \<Rightarrow> dedup_loop first_note sorted_notes)"

section \<open>SpData: beat rates\<close>

definition DEFAULT_BEAT_RATE :: real where
  "DEFAULT_BEAT_RATE = 4"

definition DEFAULT_NET_SP_GAIN_RATE :: real where
  "DEFAULT_NET_SP_GAIN_RATE = 1 / 480"

definition MEASURES_PER_BAR :: real where
  "MEASURES_PER_BAR = 8"

definition SP_GAIN_RATE :: real where
  "SP_GAIN_RATE = 1 / 30"

record BeatRate =
  br_position :: real
  net_sp_gain_rate :: real

text \<open>
  \<^verbatim>\<open>SpData::form_beat_rates\<close>: the loop appends one entry per time signature to the vector
  built so far, which is the first argument.
\<close>

fun form_beat_rates_loop :: "BeatRate list \<Rightarrow> int \<Rightarrow> TimeSignature list \<Rightarrow> BeatRate list" where
  "form_beat_rates_loop beat_rates resolution [] = beat_rates"
| "form_beat_rates_loop beat_rates resolution (ts # rest) =
     (let pos = real_of_int (ts_position ts) / real_of_int resolution;
          measure_rate = real_of_int (numerator ts) * DEFAULT_BEAT_RATE / real_of_int (denominator ts);
          drain_rate = SP_GAIN_RATE - 1 / (MEASURES_PER_BAR * measure_rate)
      in form_beat_rates_loop
           (beat_rates @ [\<lparr>br_position = pos, net_sp_gain_rate = drain_rate\<rparr>]) resolution rest)"

definition form_beat_rates :: "int \<Rightarrow> SyncTrack \<Rightarrow> BeatRate list" where
  "form_beat_rates resolution sync_track = form_beat_rates_loop [] resolution (m_time_sigs sync_track)"

section \<open>TimeConverter\<close>

record MeasureTimestamp =
  mt_measure :: real
  mt_beat :: real

record TimeConverter =
  m_measure_timestamps :: "MeasureTimestamp list"
  m_last_beat_rate :: real

text \<open>
  The loop of the constructor. Its arguments are the resolution, the vector built so far and
  the three local variables. \<^verbatim>\<open>last_tick\<close> is an \<^verbatim>\<open>unsigned\<close>, so the difference
  \<^verbatim>\<open>ts.position - last_tick\<close> is computed modulo \<open>2 ^ 32\<close> before it is converted to a
  \<^verbatim>\<open>double\<close>.
\<close>

fun measure_timestamps_loop ::
  "real \<Rightarrow> MeasureTimestamp list \<Rightarrow> int \<Rightarrow> real \<Rightarrow> real \<Rightarrow> TimeSignature list
   \<Rightarrow> MeasureTimestamp list \<times> real" where
  "measure_timestamps_loop resolution stamps last_tick last_beat_rate last_measure [] =
     (stamps, last_beat_rate)"
| "measure_timestamps_loop resolution stamps last_tick last_beat_rate last_measure (ts # rest) =
     (let last_measure' = last_measure
            + real_of_int ((ts_position ts - last_tick) mod 2 ^ 32) / (resolution * last_beat_rate);
          beat = real_of_int (ts_position ts) / resolution
      in measure_timestamps_loop resolution
           (stamps @ [\<lparr>mt_measure = last_measure', mt_beat = beat\<rparr>])
           (ts_position ts mod 2 ^ 32)
           (real_of_int (numerator ts) * DEFAULT_BEAT_RATE / real_of_int (denominator ts))
           last_measure' rest)"

text \<open>
  The constructor; its second argument is the resolution, which \<^verbatim>\<open>time.cpp\<close> reads from
  the song header and \<^verbatim>\<open>sp.cpp\<close> passes as a number. The \<^verbatim>\<open>assert\<close> on the table is a
  failure of the construction.
\<close>

definition TimeConverter_ctor :: "SyncTrack \<Rightarrow> real \<Rightarrow> error + TimeConverter" where
  "TimeConverter_ctor sync_track resolution =
     (case measure_timestamps_loop resolution [] 0 DEFAULT_BEAT_RATE 0 (m_time_sigs sync_track) of
        (stamps, last_beat_rate) \<Rightarrow>
          if stamps = [] then Inl Assertion_failure
          else Inr \<lparr>m_measure_timestamps = stamps, m_last_beat_rate = last_beat_rate\<rparr>)"

text \<open>
  \<^verbatim>\<open>std::lower_bound\<close> asks for a range partitioned by the comparison and returns the first
  position where the comparison fails, the end if there is none. It is modelled by the number
  of leading elements that satisfy the comparison.
\<close>

definition lower_bound :: "('a \<Rightarrow> bool) \<Rightarrow> 'a list \<Rightarrow> nat" where
  "lower_bound cmp xs = length (takeWhile cmp xs)"

text \<open>
  Modelled from the spec: \<^verbatim>\<open>Beat::to_measure\<close> and \<^verbatim>\<open>Measure::to_beat\<close> are declared in
  \<^verbatim>\<open>time.hpp\<close>, which is not among the sources at hand. The beat rate is the number of
  beats per measure (\<open>numerator \<times> 4 / denominator\<close>).
\<close>

definition to_measure :: "real \<Rightarrow> real \<Rightarrow> real" where
  "to_measure beats beat_rate = beats / beat_rate"

definition to_beat :: "real \<Rightarrow> real \<Rightarrow> real" where
  "to_beat meas beat_rate = meas * beat_rate"

text \<open>
  The two conversions. \<open>None\<close> stands for the undefined behaviour of \<^verbatim>\<open>back()\<close> on an
  empty table, which a converter built by the constructor never has.
\<close>

definition beats_to_measures :: "TimeConverter \<Rightarrow> real \<Rightarrow> real option" where
  "beats_to_measures conv beats =
     (let stamps = m_measure_timestamps conv;
          pos = lower_bound (\<lambda>x. mt_beat x < beats) stamps
      in if pos = length stamps then
           (if stamps = [] then None
            else Some (mt_measure (last stamps)
                       + to_measure (beats - mt_beat (last stamps)) (m_last_beat_rate conv)))
         else if pos = 0 then
           Some (mt_measure (stamps ! pos) - to_measure (mt_beat (stamps ! pos) - beats) DEFAULT_BEAT_RATE)
         else
           Some (mt_measure (stamps ! (pos - 1))
                 + (mt_measure (stamps ! pos) - mt_measure (stamps ! (pos - 1)))
                   * ((beats - mt_beat (stamps ! (pos - 1)))
                      / (mt_beat (stamps ! pos) - mt_beat (stamps ! (pos - 1))))))"

definition measures_to_beats :: "TimeConverter \<Rightarrow> real \<Rightarrow> real option" where
  "measures_to_beats conv meas =
     (let stamps = m_measure_timestamps conv;
          pos = lower_bound (\<lambda>x. mt_measure x < meas) stamps
      in if pos = length stamps then
           (if stamps = [] then None
            else Some (mt_beat (last stamps)
                       + to_beat (meas - mt_measure (last stamps)) (m_last_beat_rate conv)))
         else if pos = 0 then
           Some (mt_beat (stamps ! pos) - to_beat (mt_measure (stamps ! pos) - meas) DEFAULT_BEAT_RATE)
         else
           Some (mt_beat (stamps ! (pos - 1))
                 + (mt_beat (stamps ! pos) - mt_beat (stamps ! (pos - 1)))
                   * ((meas - mt_measure (stamps ! (pos - 1)))
                      / (mt_measure (stamps ! pos) - mt_measure (stamps ! (pos - 1))))))"

section \<open>SpData\<close>

record WhammyRange =
  wr_start :: Position
  wr_end :: Position

record SpData =
  m_converter :: TimeConverter
  m_beat_rates :: "BeatRate list"
  m_whammy_ranges :: "WhammyRange list"

definition phrase_contains_pos :: "StarPower \<Rightarrow> int \<Rightarrow> bool" where
  "phrase_contains_pos phrase position =
     (if position < sp_position phrase then False
      else position < sp_position phrase + sp_length phrase)"

text \<open>
  The first loop of the constructor of \<^verbatim>\<open>SpData\<close>, over the note spans. The conversions
  between beats and seconds belong to the part of \<^verbatim>\<open>TimeConverter\<close> that is not among the
  sources at hand; they are the two parameters \<open>beats_to_seconds\<close> and
  \<open>seconds_to_beats\<close>, about which nothing is assumed. The result lists the calls of
  \<^verbatim>\<open>emplace_back\<close> in order.
\<close>

fun note_ranges_loop ::
  "(real \<Rightarrow> real) \<Rightarrow> (real \<Rightarrow> real) \<Rightarrow> StarPower list \<Rightarrow> int \<Rightarrow> real \<Rightarrow> real
   \<Rightarrow> (int \<times> int) list \<Rightarrow> (real \<times> real) list" where
  "note_ranges_loop beats_to_seconds seconds_to_beats phrases resolution early_timing_window
     lazy_whammy [] = []"
| "note_ranges_loop beats_to_seconds seconds_to_beats phrases resolution early_timing_window
     lazy_whammy ((position, len) # rest) =
     (if len = 0 then
        note_ranges_loop beats_to_seconds seconds_to_beats phrases resolution early_timing_window
          lazy_whammy rest
      else if find (\<lambda>p. phrase_contains_pos p position) phrases = None then
        note_ranges_loop beats_to_seconds seconds_to_beats phrases resolution early_timing_window
          lazy_whammy rest
      else
        (let beat_start = real_of_int position / real_of_int resolution;
             second_start = beats_to_seconds beat_start - early_timing_window + lazy_whammy;
             beat_start' = seconds_to_beats second_start;
             beat_end = real_of_int (position + len) / real_of_int resolution
         in if beat_start' < beat_end then
              (beat_start', beat_end)
              # note_ranges_loop beats_to_seconds seconds_to_beats phrases resolution
                  early_timing_window lazy_whammy rest
            else
              note_ranges_loop beats_to_seconds seconds_to_beats phrases resolution
                early_timing_window lazy_whammy rest))"

text \<open>
  The merging loop: \<open>pair\<close> is the first argument, the ranges from \<open>p\<close> on the second; the
  result lists what is pushed to \<^verbatim>\<open>merged_ranges\<close>, the push after the loop included.
\<close>

fun merge_loop :: "real \<times> real \<Rightarrow> (real \<times> real) list \<Rightarrow> (real \<times> real) list" where
  "merge_loop pair [] = [pair]"
| "merge_loop pair (p # ps) =
     (if fst p \<le> snd pair then merge_loop (fst pair, max (snd pair) (snd p)) ps
      else pair # merge_loop p ps)"

definition to_whammy_range :: "TimeConverter \<Rightarrow> real \<times> real \<Rightarrow> WhammyRange option" where
  "to_whammy_range conv r =
     (case beats_to_measures conv (fst r) of
        None \<Rightarrow> None
      | Some start_meas \<Rightarrow>
          (case beats_to_measures conv (snd r) of
             None \<Rightarrow> None
           | Some end_meas \<Rightarrow>
               Some \<lparr>wr_start = \<lparr>beat = fst r, measure_pos = start_meas\<rparr>,
                     wr_end = \<lparr>beat = snd r, measure_pos = end_meas\<rparr>\<rparr>))"

fun to_whammy_ranges :: "TimeConverter \<Rightarrow> (real \<times> real) list \<Rightarrow> WhammyRange list option" where
  "to_whammy_ranges conv [] = Some []"
| "to_whammy_ranges conv (r # rs) =
     (case to_whammy_range conv r of
        None \<Rightarrow> None
      | Some w \<Rightarrow> (case to_whammy_ranges conv rs of None \<Rightarrow> None | Some ws \<Rightarrow> Some (w # ws)))"

text \<open>
  The constructor. \<^verbatim>\<open>std::sort\<close> on pairs of beats uses the lexicographic order of
  \<^verbatim>\<open>std::tuple\<close>, a linear order, under which the sorted vector is unique.
\<close>

definition SpData_ctor ::
  "(real \<Rightarrow> real) \<Rightarrow> (real \<Rightarrow> real) \<Rightarrow> (int \<times> int) list \<Rightarrow> StarPower list \<Rightarrow> int
   \<Rightarrow> SyncTrack \<Rightarrow> real \<Rightarrow> real \<Rightarrow> error + SpData" where
  "SpData_ctor beats_to_seconds seconds_to_beats note_spans phrases resolution sync_track
     early_whammy lazy_whammy =
     (case TimeConverter_ctor sync_track (real_of_int resolution) of
        Inl e \<Rightarrow> Inl e
      | Inr conv \<Rightarrow>
          (let early_timing_window = 0.07 * early_whammy;
               ranges = sort (note_ranges_loop beats_to_seconds seconds_to_beats phrases resolution
                                early_timing_window lazy_whammy note_spans);
               merged_ranges = (case ranges of [] \<Rightarrow> [] | r # rs \<Rightarrow> merge_loop r rs)
           in case to_whammy_ranges conv merged_ranges of
                None \<Rightarrow> Inl Undefined_behaviour
              | Some whammy_ranges \<Rightarrow>
                  Inr \<lparr>m_converter = conv,
                       m_beat_rates = form_beat_rates resolution sync_track,
                       m_whammy_ranges = whammy_ranges\<rparr>))"

section \<open>SpData: propagation of SP\<close>

text \<open>
  The \<^verbatim>\<open>while\<close> loop of \<^verbatim>\<open>propagate_over_whammy_range\<close>. The first argument is the part
  of \<^verbatim>\<open>m_beat_rates\<close> from the iterator \<open>p\<close> on. The loop runs past the last beat rate only
  when the vector is empty, where the source reads the end iterator: that is \<open>None\<close>.
\<close>

fun whammy_range_loop :: "BeatRate list \<Rightarrow> real \<Rightarrow> real \<Rightarrow> real \<Rightarrow> real option" where
  "whammy_range_loop [] start end_beat sp_bar_amount =
     (if start < end_beat then None else Some sp_bar_amount)"
| "whammy_range_loop (p # rest) start end_beat sp_bar_amount =
     (if start < end_beat then
        (let subrange_end = (case rest of [] \<Rightarrow> end_beat | nxt # _ \<Rightarrow> min end_beat (br_position nxt));
             sp_bar_amount' = sp_bar_amount + (subrange_end - start) * net_sp_gain_rate p
         in if sp_bar_amount' < 0 then Some (- 1)
            else whammy_range_loop rest subrange_end end_beat (min sp_bar_amount' 1))
      else Some sp_bar_amount)"

definition propagate_over_whammy_range ::
  "BeatRate list \<Rightarrow> real \<Rightarrow> real \<Rightarrow> real \<Rightarrow> real option" where
  "propagate_over_whammy_range beat_rates start end_beat sp_bar_amount =
     (let p = lower_bound (\<lambda>ts. br_position ts < start) beat_rates
      in if p \<noteq> 0 then whammy_range_loop (drop (p - 1) beat_rates) start end_beat sp_bar_amount
         else (case beat_rates of
                 [] \<Rightarrow> None
               | first_rate # _ \<Rightarrow>
                   (let subrange_end = min end_beat (br_position first_rate);
                        sp_bar_amount' =
                          min (sp_bar_amount + (subrange_end - start) * DEFAULT_NET_SP_GAIN_RATE) 1
                    in whammy_range_loop beat_rates subrange_end end_beat sp_bar_amount')))"

text \<open>The amount left after a stretch without whammy: \<^verbatim>\<open>sp -= meas_diff.value() / MEASURES_PER_BAR\<close>.\<close>

definition drain :: "Position \<Rightarrow> Position \<Rightarrow> real \<Rightarrow> real" where
  "drain from_pos to_pos sp = sp - (measure_pos to_pos - measure_pos from_pos) / MEASURES_PER_BAR"

text \<open>
  The \<^verbatim>\<open>while\<close> loop of \<^verbatim>\<open>propagate_sp_over_whammy_max\<close> together with the statements
  after it. The second argument is the part of \<^verbatim>\<open>m_whammy_ranges\<close> from the iterator \<open>p\<close>
  on.
\<close>

fun whammy_max_loop ::
  "BeatRate list \<Rightarrow> WhammyRange list \<Rightarrow> Position \<Rightarrow> Position \<Rightarrow> real \<Rightarrow> real option" where
  "whammy_max_loop beat_rates [] start end_pos sp = Some (drain start end_pos sp)"
| "whammy_max_loop beat_rates (p # rest) start end_pos sp =
     (if beat (wr_start p) < beat end_pos then
        (let gap = beat (wr_start p) > beat start;
             sp1 = (if gap then drain start (wr_start p) sp else sp);
             start1 = (if gap then wr_start p else start)
         in if gap \<and> sp1 < 0 then Some sp1
            else
              (let range_end = min (beat end_pos) (beat (wr_end p))
               in case propagate_over_whammy_range beat_rates (beat start1) range_end sp1 of
                    None \<Rightarrow> None
                  | Some sp2 \<Rightarrow>
                      if sp2 < 0 \<or> beat (wr_end p) \<ge> beat end_pos then Some sp2
                      else whammy_max_loop beat_rates rest (wr_end p) end_pos sp2))
      else Some (drain start end_pos sp))"

definition propagate_sp_over_whammy_max ::
  "SpData \<Rightarrow> Position \<Rightarrow> Position \<Rightarrow> real \<Rightarrow> real option" where
  "propagate_sp_over_whammy_max d start end_pos sp =
     (let p = lower_bound (\<lambda>x. beat (wr_end x) \<le> beat start) (m_whammy_ranges d)
      in whammy_max_loop (m_beat_rates d) (drop p (m_whammy_ranges d)) start end_pos sp)"

definition propagate_sp_over_whammy_min ::
  "SpData \<Rightarrow> Position \<Rightarrow> Position \<Rightarrow> real \<Rightarrow> Position \<Rightarrow> real option" where
  "propagate_sp_over_whammy_min d start end_pos sp required_whammy_end =
     (case (if beat required_whammy_end > beat start then
              (let whammy_end =
                     (if beat required_whammy_end < beat end_pos then required_whammy_end else end_pos)
               in case propagate_sp_over_whammy_max d start whammy_end sp of
                    None \<Rightarrow> None
                  | Some sp1 \<Rightarrow> Some (sp1, required_whammy_end))
            else Some (sp, start)) of
        None \<Rightarrow> None
      | Some (sp1, start1) \<Rightarrow>
          (let sp2 = (if beat start1 < beat end_pos then drain start1 end_pos sp1 else sp1)
           in Some (max sp2 0)))"

text \<open>
  Whammy ranges sorted by the beat of their start and pairwise disjoint: each range ends before
  every later one starts.
\<close>

definition ranges_disjoint_sorted :: "WhammyRange list \<Rightarrow> bool" where
  "ranges_disjoint_sorted rs =
     (sorted_wrt (\<lambda>x y. beat (wr_start x) < beat (wr_start y)) rs
      \<and> sorted_wrt (\<lambda>x y. beat (wr_end x) < beat (wr_start y)) rs)"

section \<open>Example data\<close>

text \<open>A sync track in 4/4 that changes to 1/4 at tick 768, and the engine built from it.\<close>

definition example_sync_track :: SyncTrack where
  "example_sync_track =
     \<lparr>m_time_sigs = [\<lparr>ts_position = 0, numerator = 4, denominator = 4\<rparr>,
                     \<lparr>ts_position = 768, numerator = 1, denominator = 4\<rparr>],
      m_bpms = []\<rparr>"

definition example_converter :: TimeConverter where
  "example_converter =
     \<lparr>m_measure_timestamps = [\<lparr>mt_measure = 0, mt_beat = 0\<rparr>, \<lparr>mt_measure = 1, mt_beat = 4\<rparr>],
      m_last_beat_rate = 1\<rparr>"

definition example_sp_data :: SpData where
  "example_sp_data =
     \<lparr>m_converter = example_converter,
      m_beat_rates = [\<lparr>br_position = 0, net_sp_gain_rate = 1 / 480\<rparr>,
                      \<lparr>br_position = 4, net_sp_gain_rate = - (11 / 120)\<rparr>],
      m_whammy_ranges = [\<lparr>wr_start = \<lparr>beat = 0, measure_pos = 0\<rparr>,
                           wr_end = \<lparr>beat = 1, measure_pos = 1 / 4\<rparr>\<rparr>,
                         \<lparr>wr_start = \<lparr>beat = 3, measure_pos = 3 / 4\<rparr>,
                           wr_end = \<lparr>beat = 11 / 2, measure_pos = 5 / 2\<rparr>\<rparr>]\<rparr>"

section \<open>SpData: the end point of an activation\<close>

text \<open>
  The \<^verbatim>\<open>while\<close> loop of \<^verbatim>\<open>whammy_propagation_endpoint\<close>, on the part of
  \<^verbatim>\<open>m_beat_rates\<close> from the iterator \<open>p\<close> on; \<open>None\<close> as in \<^const>\<open>whammy_range_loop\<close>.
\<close>

fun endpoint_loop :: "BeatRate list \<Rightarrow> real \<Rightarrow> real \<Rightarrow> real \<Rightarrow> real option" where
  "endpoint_loop [] start end_beat sp_bar_amount =
     (if start < end_beat then None else Some end_beat)"
| "endpoint_loop (p # rest) start end_beat sp_bar_amount =
     (if start < end_beat then
        (let subrange_end = (case rest of [] \<Rightarrow> end_beat | nxt # _ \<Rightarrow> min end_beat (br_position nxt));
             sp_gain = (subrange_end - start) * net_sp_gain_rate p
         in if sp_bar_amount + sp_gain < 0 then Some (start + (- sp_bar_amount / net_sp_gain_rate p))
            else endpoint_loop rest subrange_end end_beat (min (sp_bar_amount + sp_gain) 1))
      else Some end_beat)"

definition whammy_propagation_endpoint ::
  "BeatRate list \<Rightarrow> real \<Rightarrow> real \<Rightarrow> real \<Rightarrow> real option" where
  "whammy_propagation_endpoint beat_rates start end_beat sp_bar_amount =
     (let p = lower_bound (\<lambda>ts. br_position ts < start) beat_rates
      in if p \<noteq> 0 then endpoint_loop (drop (p - 1) beat_rates) start end_beat sp_bar_amount
         else (case beat_rates of
                 [] \<Rightarrow> None
               | first_rate # _ \<Rightarrow>
                   (let subrange_end = min end_beat (br_position first_rate);
                        sp_gain = (subrange_end - start) * DEFAULT_NET_SP_GAIN_RATE;
                        sp_bar_amount' = min (sp_bar_amount + sp_gain) 1
                    in endpoint_loop beat_rates subrange_end end_beat sp_bar_amount')))"

text \<open>
  The position where a stretch without whammy uses up the amount \<open>sp_bar_amount\<close>:
  \<^verbatim>\<open>end_meas = start.measure + Measure(sp_bar_amount * MEASURES_PER_BAR)\<close>, the beat by
  \<^verbatim>\<open>measures_to_beats\<close>.
\<close>

definition drain_end_point :: "TimeConverter \<Rightarrow> Position \<Rightarrow> real \<Rightarrow> Position option" where
  "drain_end_point conv start sp_bar_amount =
     (let end_meas = measure_pos start + sp_bar_amount * MEASURES_PER_BAR
      in case measures_to_beats conv end_meas of
           None \<Rightarrow> None
         | Some end_beat \<Rightarrow> Some \<lparr>beat = end_beat, measure_pos = end_meas\<rparr>)"

text \<open>The position where the whammy over a range runs out, the measure by \<^verbatim>\<open>beats_to_measures\<close>.\<close>

definition whammy_end_point ::
  "TimeConverter \<Rightarrow> BeatRate list \<Rightarrow> real \<Rightarrow> real \<Rightarrow> real \<Rightarrow> Position option" where
  "whammy_end_point conv beat_rates start end_beat sp_bar_amount =
     (case whammy_propagation_endpoint beat_rates start end_beat sp_bar_amount of
        None \<Rightarrow> None
      | Some end_beat' \<Rightarrow>
          (case beats_to_measures conv end_beat' of
             None \<Rightarrow> None
           | Some end_meas \<Rightarrow> Some \<lparr>beat = end_beat', measure_pos = end_meas\<rparr>))"

text \<open>
  The \<^verbatim>\<open>while\<close> loop of \<^verbatim>\<open>activation_end_point\<close> together with the statements after it,
  on the part of \<^verbatim>\<open>m_whammy_ranges\<close> from the iterator \<open>p\<close> on.
\<close>

fun activation_end_loop ::
  "TimeConverter \<Rightarrow> BeatRate list \<Rightarrow> WhammyRange list \<Rightarrow> Position \<Rightarrow> Position \<Rightarrow> real
   \<Rightarrow> Position option" where
  "activation_end_loop conv beat_rates [] start end_pos sp_bar_amount =
     (let sp_deduction = (measure_pos end_pos - measure_pos start) / MEASURES_PER_BAR
      in if sp_bar_amount < sp_deduction then drain_end_point conv start sp_bar_amount
         else Some end_pos)"
| "activation_end_loop conv beat_rates (p # rest) start end_pos sp_bar_amount =
     (if beat (wr_start p) < beat end_pos then
        (let gap = beat (wr_start p) > beat start;
             sp_deduction = (measure_pos (wr_start p) - measure_pos start) / MEASURES_PER_BAR
         in if gap \<and> sp_bar_amount < sp_deduction then drain_end_point conv start sp_bar_amount
            else
              (let sp1 = (if gap then sp_bar_amount - sp_deduction else sp_bar_amount);
                   start1 = (if gap then wr_start p else start);
                   range_end = min (beat end_pos) (beat (wr_end p))
               in case propagate_over_whammy_range beat_rates (beat start1) range_end sp1 of
                    None \<Rightarrow> None
                  | Some new_sp_bar_amount \<Rightarrow>
                      if new_sp_bar_amount < 0 then
                        whammy_end_point conv beat_rates (beat start1) (beat end_pos) sp1
                      else if beat (wr_end p) \<ge> beat end_pos then Some end_pos
                      else activation_end_loop conv beat_rates rest (wr_end p) end_pos
                             new_sp_bar_amount))
      else
        (let sp_deduction = (measure_pos end_pos - measure_pos start) / MEASURES_PER_BAR
         in if sp_bar_amount < sp_deduction then drain_end_point conv start sp_bar_amount
            else Some end_pos))"

definition activation_end_point :: "SpData \<Rightarrow> Position \<Rightarrow> Position \<Rightarrow> real \<Rightarrow> Position option" where
  "activation_end_point d start end_pos sp_bar_amount =
     (let p = lower_bound (\<lambda>x. beat (wr_end x) \<le> beat start) (m_whammy_ranges d)
      in activation_end_loop (m_converter d) (m_beat_rates d) (drop p (m_whammy_ranges d))
           start end_pos sp_bar_amount)"

section \<open>Well-formed sync tracks\<close>

text \<open>
  The time signatures the data model of the specification asks for: sorted by tick, ticks in the
  range of \<^verbatim>\<open>uint32_t\<close>, numerators and denominators positive.
\<close>

definition time_sigs_wf :: "TimeSignature list \<Rightarrow> bool" where
  "time_sigs_wf tss =
     (sorted (map ts_position tss)
      \<and> list_all (\<lambda>ts. 0 \<le> ts_position ts \<and> ts_position ts < 2 ^ 32
                       \<and> 0 < numerator ts \<and> 0 < denominator ts) tss)"

text \<open>
  The order of two entries of the table of a converter: beat and measure grow together, and
  one is equal exactly when the other is.
\<close>

definition stamp_le :: "MeasureTimestamp \<Rightarrow> MeasureTimestamp \<Rightarrow> bool" where
  "stamp_le x y =
     (mt_beat x \<le> mt_beat y \<and> mt_measure x \<le> mt_measure y
      \<and> (mt_beat x = mt_beat y \<longleftrightarrow> mt_measure x = mt_measure y))"

section \<open>Well-formed engines, and positions on the timeline\<close>

text \<open>
  The beat rates of an engine: at least one, sorted by position. \<^verbatim>\<open>form_beat_rates\<close> yields
  such a list from well-formed time signatures.
\<close>

definition beat_rates_wf :: "BeatRate list \<Rightarrow> bool" where
  "beat_rates_wf rates = (rates \<noteq> [] \<and> sorted (map br_position rates))"

text \<open>
  What the integration needs of a converter: both conversions are defined everywhere, they are
  inverse to each other, and \<^verbatim>\<open>beats_to_measures\<close> is monotone. The converters of
  well-formed sync tracks are piecewise linear with positive slopes and have these properties.
\<close>

definition conv_ok :: "TimeConverter \<Rightarrow> bool" where
  "conv_ok conv =
     ((\<forall>b. \<exists>m. beats_to_measures conv b = Some m \<and> measures_to_beats conv m = Some b)
      \<and> (\<forall>m. \<exists>b. measures_to_beats conv m = Some b \<and> beats_to_measures conv b = Some m)
      \<and> (\<forall>b1 b2 m1 m2. beats_to_measures conv b1 = Some m1 \<and> beats_to_measures conv b2 = Some m2
             \<and> b1 \<le> b2 \<longrightarrow> m1 \<le> m2))"

text \<open>
  A \<^verbatim>\<open>Position\<close> carries a beat together with its measure: the pair is on the timeline of
  the converter when the measure is the one \<^verbatim>\<open>beats_to_measures\<close> gives for the beat.
\<close>

definition on_timeline :: "TimeConverter \<Rightarrow> Position \<Rightarrow> bool" where
  "on_timeline conv p = (beats_to_measures conv (beat p) = Some (measure_pos p))"

text \<open>
  The whammy ranges of an engine: disjoint and in order, none empty, their end points on the
  timeline. The constructor of \<^verbatim>\<open>SpData\<close> builds them so.
\<close>

definition ranges_ok :: "TimeConverter \<Rightarrow> WhammyRange list \<Rightarrow> bool" where
  "ranges_ok conv ws =
     (sorted_wrt (\<lambda>x y. beat (wr_end x) < beat (wr_start y)) ws
      \<and> list_all (\<lambda>w. beat (wr_start w) < beat (wr_end w)
                      \<and> on_timeline conv (wr_start w) \<and> on_timeline conv (wr_end w)) ws)"

definition sp_data_wf :: "SpData \<Rightarrow> bool" where
  "sp_data_wf d =
     (conv_ok (m_converter d) \<and> beat_rates_wf (m_beat_rates d)
      \<and> ranges_ok (m_converter d) (m_whammy_ranges d))"

section \<open>Notions used to state the properties of the integration\<close>

text \<open>
  One iteration of the loops over the whammy ranges starts with the stretch without whammy
  before the range, if there is one: the amount left after it and the position reached.
\<close>

definition gap_sp :: "WhammyRange \<Rightarrow> Position \<Rightarrow> real \<Rightarrow> real" where
  "gap_sp w cur s = (if beat (wr_start w) > beat cur then drain cur (wr_start w) s else s)"

definition gap_start :: "WhammyRange \<Rightarrow> Position \<Rightarrow> Position" where
  "gap_start w cur = (if beat (wr_start w) > beat cur then wr_start w else cur)"

text \<open>
  The statements after the loop of \<^verbatim>\<open>activation_end_point\<close>, with the comparison
  \<^verbatim>\<open>sp_bar_amount < sp_deduction\<close> written on the amount left.
\<close>

definition final_end_point :: "TimeConverter \<Rightarrow> Position \<Rightarrow> Position \<Rightarrow> real \<Rightarrow> Position option" where
  "final_end_point conv cur end_pos s =
     (if drain cur end_pos s < 0 then drain_end_point conv cur s else Some end_pos)"

text \<open>
  The end of the sub-range of one beat rate, and the part of the beat rates not yet reached,
  in the loops over the beat rates.
\<close>

definition sub_end :: "BeatRate list \<Rightarrow> real \<Rightarrow> real" where
  "sub_end rest e = (case rest of [] \<Rightarrow> e | nxt # _ \<Rightarrow> min e (br_position nxt))"

definition rest_ok :: "BeatRate list \<Rightarrow> real \<Rightarrow> bool" where
  "rest_ok rest start = (sorted (map br_position rest) \<and> list_all (\<lambda>r. start \<le> br_position r) rest)"

text \<open>
  The point \<open>p\<close> up to which a balance lasts. The balance, a function of the position
  reached, is never above one, it is not negative exactly at the positions of the timeline up
  to \<open>p\<close>, and it is zero at \<open>p\<close> unless \<open>p\<close> is the end of the interval.
\<close>

definition crossing_spec ::
  "TimeConverter \<Rightarrow> Position \<Rightarrow> Position \<Rightarrow> (Position \<Rightarrow> real option) \<Rightarrow> Position \<Rightarrow> bool" where
  "crossing_spec conv cur end_pos balance p =
     (on_timeline conv p \<and> beat cur \<le> beat p \<and> beat p \<le> beat end_pos
      \<and> (p = end_pos \<or> balance p = Some 0)
      \<and> (\<forall>x. on_timeline conv x \<and> beat cur \<le> beat x \<and> beat x \<le> beat end_pos \<longrightarrow>
             (\<exists>r. balance x = Some r \<and> r \<le> 1 \<and> (0 \<le> r \<longleftrightarrow> beat x \<le> beat p))))"

text \<open>
  A beat is inside a whammy range when it is at or after the start and before the end of one.
  The stretch without whammy that holds a position \<open>p\<close> ends at the start of the next whammy
  range, if that is before the end of the interval, and at the end of the interval otherwise.
\<close>

definition inside_whammy_range :: "WhammyRange list \<Rightarrow> real \<Rightarrow> bool" where
  "inside_whammy_range ws b = list_ex (\<lambda>w. beat (wr_start w) \<le> b \<and> b < beat (wr_end w)) ws"

definition gap_end :: "WhammyRange list \<Rightarrow> Position \<Rightarrow> Position \<Rightarrow> Position" where
  "gap_end ws p end_pos =
     (case find (\<lambda>w. beat p < beat (wr_start w)) ws of
        None \<Rightarrow> end_pos
      | Some w \<Rightarrow> if beat (wr_start w) < beat end_pos then wr_start w else end_pos)"

section \<open>More example data\<close>

text \<open>
  An engine in 3/4 with one whammy range from beat 3 to beat 9, where whammy does not make up
  for the drain, and one in 4/4 with a whammy range from beat 4 to beat 8, where it does.
\<close>

definition waltz_sync_track :: SyncTrack where
  "waltz_sync_track = \<lparr>m_time_sigs = [\<lparr>ts_position = 0, numerator = 3, denominator = 4\<rparr>], m_bpms = []\<rparr>"

definition waltz_converter :: TimeConverter where
  "waltz_converter = \<lparr>m_measure_timestamps = [\<lparr>mt_measure = 0, mt_beat = 0\<rparr>], m_last_beat_rate = 3\<rparr>"

definition waltz_sp_data :: SpData where
  "waltz_sp_data =
     \<lparr>m_converter = waltz_converter,
      m_beat_rates = [\<lparr>br_position = 0, net_sp_gain_rate = - (1 / 120)\<rparr>],
      m_whammy_ranges = [\<lparr>wr_start = \<lparr>beat = 3, measure_pos = 1\<rparr>,
                           wr_end = \<lparr>beat = 9, measure_pos = 3\<rparr>\<rparr>]\<rparr>"

definition common_sync_track :: SyncTrack where
  "common_sync_track = \<lparr>m_time_sigs = [\<lparr>ts_position = 0, numerator = 4, denominator = 4\<rparr>], m_bpms = []\<rparr>"

definition common_sp_data :: SpData where
  "common_sp_data =
     \<lparr>m_converter = \<lparr>m_measure_timestamps = [\<lparr>mt_measure = 0, mt_beat = 0\<rparr>], m_last_beat_rate = 4\<rparr>,
      m_beat_rates = [\<lparr>br_position = 0, net_sp_gain_rate = 1 / 480\<rparr>],
      m_whammy_ranges = [\<lparr>wr_start = \<lparr>beat = 4, measure_pos = 1\<rparr>,
                           wr_end = \<lparr>beat = 8, measure_pos = 2\<rparr>\<rparr>]\<rparr>"



section \<open>Piecewise linear tables\<close>

text \<open>
  Both conversions of \<^verbatim>\<open>TimeConverter\<close> read the same table in the same way, one by beats
  and one by measures: linear before the first entry and after the last, with the two given
  slopes, and linear between two neighbouring entries. \<open>interp\<close> is that common shape over a
  table of pairs; it is used to reason about the two conversions at once.
\<close>

definition interp :: "(real \<times> real) list \<Rightarrow> real \<Rightarrow> real \<Rightarrow> real \<Rightarrow> real option" where
  "interp tab slope_before slope_after x =
     (let i = lower_bound (\<lambda>p. fst p < x) tab
      in if i = length tab then
           (if tab = [] then None
            else Some (snd (last tab) + (x - fst (last tab)) * slope_after))
         else if i = 0 then Some (snd (tab ! i) - (fst (tab ! i) - x) * slope_before)
         else Some (snd (tab ! (i - 1))
                    + (snd (tab ! i) - snd (tab ! (i - 1)))
                      * ((x - fst (tab ! (i - 1))) / (fst (tab ! i) - fst (tab ! (i - 1))))))"

text \<open>
  The order of the entries of a table whose two columns grow together, and the tables that are
  not empty and sorted by it.
\<close>

definition tab_le :: "real \<times> real \<Rightarrow> real \<times> real \<Rightarrow> bool" where
  "tab_le p q = (fst p \<le> fst q \<and> snd p \<le> snd q \<and> (fst p = fst q \<longleftrightarrow> snd p = snd q))"

definition tab_ok :: "(real \<times> real) list \<Rightarrow> bool" where
  "tab_ok tab = (tab \<noteq> [] \<and> sorted_wrt tab_le tab)"

section \<open>Properties of SpBar\<close>

lemma add_phrase_preserves: "sp_bar_ok b \<Longrightarrow> sp_bar_ok (add_phrase b)"
  by (simp add: sp_bar_ok_def add_phrase_def SP_PHRASE_AMOUNT_def Let_def min_def)

lemma add_phrase_upper: "m_min (add_phrase b) \<le> 1 \<and> m_max (add_phrase b) \<le> 1"
  by (simp add: add_phrase_def Let_def)

text \<open>
  C2, as stated, fails: the constructor accepts any two numbers, so the bar built by
  \<^verbatim>\<open>SpBar(0.75, 0.25)\<close> is reachable and has \<open>min > max\<close>.
\<close>

theorem C2_counterexample:
  "reachable_bar (SpBar_ctor 0.75 0.25) \<and> \<not> sp_bar_ok (SpBar_ctor 0.75 0.25)"
proof
  show "reachable_bar (SpBar_ctor 0.75 0.25)" by (rule reachable_bar.ctor)
  show "\<not> sp_bar_ok (SpBar_ctor 0.75 0.25)" by (simp add: sp_bar_ok_def SpBar_ctor_def)
qed

text \<open>
  C2, amended: a constructed bar satisfies \<open>0 \<le> min \<le> max \<le> 1\<close> exactly when the
  constructor's arguments do, \<^verbatim>\<open>add_phrase\<close> preserves the predicate, and so every bar
  reached from a constructor call with such arguments satisfies it.
\<close>

theorem C2_sp_bar_invariant:
  "(sp_bar_ok (SpBar_ctor mn mx) \<longleftrightarrow> 0 \<le> mn \<and> mn \<le> mx \<and> mx \<le> 1)
   \<and> (sp_bar_ok b \<longrightarrow> sp_bar_ok (add_phrase b))
   \<and> (reachable_from_ok b \<longrightarrow> sp_bar_ok b)"
proof (intro conjI impI)
  show "sp_bar_ok (SpBar_ctor mn mx) \<longleftrightarrow> 0 \<le> mn \<and> mn \<le> mx \<and> mx \<le> 1"
    by (simp add: sp_bar_ok_def SpBar_ctor_def)
next
  assume "sp_bar_ok b"
  then show "sp_bar_ok (add_phrase b)" by (rule add_phrase_preserves)
next
  assume "reachable_from_ok b"
  then show "sp_bar_ok b"
  proof (induction rule: reachable_from_ok.induct)
    case (ctor_ok mn mx)
    then show ?case by (simp add: sp_bar_ok_def SpBar_ctor_def)
  next
    case (phrase_ok b)
    then show ?case by (simp add: add_phrase_preserves)
  qed
qed

theorem C2_sp_bar_invariant_witness:
  "reachable_from_ok (add_phrase (SpBar_ctor 0.5 0.875))
   \<and> sp_bar_ok (add_phrase (SpBar_ctor 0.5 0.875))
   \<and> add_phrase (SpBar_ctor 0.5 0.875) = \<lparr>m_min = 0.75, m_max = 1\<rparr>"
proof -
  have r: "reachable_from_ok (add_phrase (SpBar_ctor 0.5 0.875))"
    by (rule reachable_from_ok.phrase_ok, rule reachable_from_ok.ctor_ok) simp_all
  have v: "add_phrase (SpBar_ctor 0.5 0.875) = \<lparr>m_min = 0.75, m_max = 1\<rparr>"
    by (simp add: add_phrase_def SpBar_ctor_def SP_PHRASE_AMOUNT_def)
  from r C2_sp_bar_invariant [of "0.5" "0.875" "add_phrase (SpBar_ctor 0.5 0.875)"]
  have "sp_bar_ok (add_phrase (SpBar_ctor 0.5 0.875))" by blast
  with r v show ?thesis by simp
qed

section \<open>Properties of the chart constructors\<close>






section \<open>Properties of form\_beat\_rates\<close>

lemma form_beat_rates_loop_map:
  "form_beat_rates_loop acc resolution tss =
     acc @ map (\<lambda>ts. \<lparr>br_position = real_of_int (ts_position ts) / real_of_int resolution,
                       net_sp_gain_rate =
                         1 / 30 - 1 / (8 * (real_of_int (numerator ts) * 4 / real_of_int (denominator ts)))\<rparr>) tss"
  by (induction tss arbitrary: acc)
     (simp_all add: Let_def DEFAULT_BEAT_RATE_def SP_GAIN_RATE_def MEASURES_PER_BAR_def)

text \<open>
  C7: the beat rates are the time signatures, one entry each and in the same order, with
  position \<open>tick / resolution\<close> and rate \<open>1/30 - 1/(8 \<sqdot> (num \<sqdot> 4 / den))\<close>.
\<close>

theorem C7_form_beat_rates:
  "form_beat_rates resolution sync_track =
     map (\<lambda>ts. \<lparr>br_position = real_of_int (ts_position ts) / real_of_int resolution,
                 net_sp_gain_rate =
                   1 / 30 - 1 / (8 * (real_of_int (numerator ts) * 4 / real_of_int (denominator ts)))\<rparr>)
         (m_time_sigs sync_track)
   \<and> length (form_beat_rates resolution sync_track) = length (m_time_sigs sync_track)"
  by (simp add: form_beat_rates_def form_beat_rates_loop_map)

section \<open>Properties of NoteTrack\<close>

lemma dedup_loop_keys:
  "set (map note_key (dedup_loop prev ps)) = set (map note_key (prev # ps))"
  by (induction ps arbitrary: prev) (auto simp: note_key_def)

lemma dedup_loop_subset: "set (dedup_loop prev ps) \<subseteq> set (prev # ps)"
  by (induction ps arbitrary: prev) auto

lemma dedup_loop_sorted:
  "sorted (map note_key (prev # ps)) \<Longrightarrow> sorted_wrt (<) (map note_key (dedup_loop prev ps))"
proof (induction ps arbitrary: prev)
  case Nil
  then show ?case by simp
next
  case (Cons p ps)
  have s: "sorted (map note_key (p # ps))" using Cons.prems by simp
  show ?case
  proof (cases "note_position p \<noteq> note_position prev \<or> colour p \<noteq> colour prev")
    case True
    have ne: "note_key prev \<noteq> note_key p" using True by (auto simp: note_key_def)
    have "\<forall>k \<in> set (map note_key (dedup_loop p ps)). note_key prev < k"
    proof
      fix k assume "k \<in> set (map note_key (dedup_loop p ps))"
      then have "k \<in> set (map note_key (p # ps))" by (simp only: dedup_loop_keys)
      then have "note_key p \<le> k" using s by auto
      moreover have "note_key prev \<le> note_key p" using Cons.prems by simp
      ultimately show "note_key prev < k" using ne by simp
    qed
    then show ?thesis using True Cons.IH [OF s] by simp
  next
    case False
    then show ?thesis using Cons.IH [OF s] by simp
  qed
qed

lemma dedup_loop_last:
  "sorted (map note_key (prev # ps)) \<Longrightarrow> n \<in> set (dedup_loop prev ps) \<Longrightarrow>
   n = last (filter (\<lambda>m. note_key m = note_key n) (prev # ps))"
proof (induction ps arbitrary: prev)
  case Nil
  then show ?case by simp
next
  case (Cons p ps)
  have s: "sorted (map note_key (p # ps))" using Cons.prems by simp
  have le: "note_key prev \<le> note_key p" using Cons.prems by simp
  show ?case
  proof (cases "note_position p \<noteq> note_position prev \<or> colour p \<noteq> colour prev")
    case True
    have ne: "note_key prev \<noteq> note_key p" using True by (auto simp: note_key_def)
    have gt: "\<forall>m \<in> set (p # ps). note_key prev < note_key m"
      using s le ne by fastforce
    from Cons.prems(2) True have "n = prev \<or> n \<in> set (dedup_loop p ps)" by simp
    then show ?thesis
    proof
      assume "n = prev"
      moreover have "filter (\<lambda>m. note_key m = note_key prev) (p # ps) = []"
        using gt by (auto simp: filter_empty_conv simp del: filter.simps)
      ultimately show ?thesis by simp
    next
      assume n: "n \<in> set (dedup_loop p ps)"
      then have "n \<in> set (p # ps)" using dedup_loop_subset by blast
      then have "note_key prev \<noteq> note_key n" using gt by auto
      then show ?thesis using Cons.IH [OF s n] by simp
    qed
  next
    case False
    then have eq: "note_key prev = note_key p" by (simp add: note_key_def)
    from Cons.prems(2) False have n: "n \<in> set (dedup_loop p ps)" by simp
    note ih = Cons.IH [OF s n]
    show ?thesis
    proof (cases "note_key prev = note_key n")
      case True
      then have "filter (\<lambda>m. note_key m = note_key n) (p # ps) \<noteq> []"
        using eq by simp
      then show ?thesis using ih True by (simp del: filter.simps add: filter.simps(2)[of _ prev])
    next
      case False
      then show ?thesis using ih by simp
    qed
  qed
qed

text \<open>
  C8: the stored notes are strictly increasing in \<open>(position, colour)\<close>, so sorted with one
  note per pair; the pairs are those of the input; and the note kept for a pair is the last
  input note with that pair, which is what the stable sort followed by the loop leaves.
\<close>

theorem C8_note_track_sorted_dedup:
  fixes ns :: "('c::linorder) Note list"
  shows "sorted_wrt (<) (map note_key (NoteTrack_notes ns))
   \<and> set (map note_key (NoteTrack_notes ns)) = set (map note_key ns)
   \<and> (\<forall>n \<in> set (NoteTrack_notes ns).
        n = last (filter (\<lambda>m. note_key m = note_key n) ns))"
proof (cases "sort_key note_key ns")
  case Nil
  then have "ns = []" by (metis length_sort list.size(3) length_0_conv)
  then show ?thesis by (simp add: NoteTrack_notes_def)
next
  case (Cons f rest)
  have srt: "sorted (map note_key (f # rest))" using Cons sorted_sort_key [of note_key ns] by simp
  have out: "NoteTrack_notes ns = dedup_loop f rest"
    by (simp add: NoteTrack_notes_def Cons)
  have k: "set (map note_key (f # rest)) = set (map note_key ns)"
    using Cons by (metis set_map set_sort)
  have "\<forall>n \<in> set (dedup_loop f rest). n = last (filter (\<lambda>m. note_key m = note_key n) ns)"
  proof
    fix n assume "n \<in> set (dedup_loop f rest)"
    then have "n = last (filter (\<lambda>m. note_key m = note_key n) (f # rest))"
      using dedup_loop_last [OF srt] by blast
    also have "filter (\<lambda>m. note_key m = note_key n) (f # rest) =
               filter (\<lambda>m. note_key m = note_key n) ns"
      using sort_key_stable [of note_key "note_key n" ns] by (simp only: Cons)
    finally show "n = last (filter (\<lambda>m. note_key m = note_key n) ns)" .
  qed
  then show ?thesis using out dedup_loop_sorted [OF srt] dedup_loop_keys [of f rest] k by simp
qed

theorem C8_note_track_sorted_dedup_witness:
  "NoteTrack_notes
     [\<lparr>note_position = 192, note_length = 0, colour = 1::nat, is_forced = False, is_tap = False\<rparr>,
      \<lparr>note_position = 0, note_length = 0, colour = 2, is_forced = False, is_tap = False\<rparr>,
      \<lparr>note_position = 192, note_length = 96, colour = 1, is_forced = True, is_tap = False\<rparr>,
      \<lparr>note_position = 192, note_length = 0, colour = 0, is_forced = False, is_tap = False\<rparr>] =
     [\<lparr>note_position = 0, note_length = 0, colour = 2, is_forced = False, is_tap = False\<rparr>,
      \<lparr>note_position = 192, note_length = 0, colour = 0, is_forced = False, is_tap = False\<rparr>,
      \<lparr>note_position = 192, note_length = 96, colour = 1, is_forced = True, is_tap = False\<rparr>]
   \<and> \<lparr>note_position = 192, note_length = 96, colour = 1::nat, is_forced = True, is_tap = False\<rparr> =
     last (filter (\<lambda>m. note_key m = (192, 1))
     [\<lparr>note_position = 192, note_length = 0, colour = 1::nat, is_forced = False, is_tap = False\<rparr>,
      \<lparr>note_position = 0, note_length = 0, colour = 2, is_forced = False, is_tap = False\<rparr>,
      \<lparr>note_position = 192, note_length = 96, colour = 1, is_forced = True, is_tap = False\<rparr>,
      \<lparr>note_position = 192, note_length = 0, colour = 0, is_forced = False, is_tap = False\<rparr>])"
proof -
  let ?ns = "[\<lparr>note_position = 192, note_length = 0, colour = 1::nat, is_forced = False, is_tap = False\<rparr>,
      \<lparr>note_position = 0, note_length = 0, colour = 2, is_forced = False, is_tap = False\<rparr>,
      \<lparr>note_position = 192, note_length = 96, colour = 1, is_forced = True, is_tap = False\<rparr>,
      \<lparr>note_position = 192, note_length = 0, colour = 0, is_forced = False, is_tap = False\<rparr>]"
  let ?n = "\<lparr>note_position = 192, note_length = 96, colour = 1::nat, is_forced = True, is_tap = False\<rparr>"
  have out: "NoteTrack_notes ?ns =
     [\<lparr>note_position = 0, note_length = 0, colour = 2, is_forced = False, is_tap = False\<rparr>,
      \<lparr>note_position = 192, note_length = 0, colour = 0, is_forced = False, is_tap = False\<rparr>, ?n]"
    by (simp add: NoteTrack_notes_def note_key_def)
  then have "?n \<in> set (NoteTrack_notes ?ns)" by simp
  with C8_note_track_sorted_dedup [of ?ns]
  have l: "?n = last (filter (\<lambda>m. note_key m = note_key ?n) ?ns)" by blast
  have k: "note_key ?n = (192, 1)" by (simp add: note_key_def)
  from l have "?n = last (filter (\<lambda>m. note_key m = (192, 1)) ?ns)" unfolding k .
  with out show ?thesis by (rule conjI)
qed

section \<open>Properties of the constructor of SpData\<close>

lemma note_ranges_loop_nonempty:
  "r \<in> set (note_ranges_loop b2s s2b phrases resolution etw lazy spans) \<Longrightarrow> fst r < snd r"
  by (induction spans) (auto simp: Let_def split: if_splits)

lemma sorted_pairs_fst: "sorted (xs :: (real \<times> real) list) \<Longrightarrow> sorted (map fst xs)"
  by (induction xs) (auto simp: less_eq_prod_def)

lemma merge_loop_props:
  "sorted (map fst (pair # ps)) \<Longrightarrow> fst pair < snd pair \<Longrightarrow> \<forall>r \<in> set ps. fst r < snd r \<Longrightarrow>
   sorted_wrt (\<lambda>x y. snd x < fst y) (merge_loop pair ps)
   \<and> (\<forall>r \<in> set (merge_loop pair ps). fst r < snd r \<and> fst pair \<le> fst r)"
proof (induction ps arbitrary: pair)
  case Nil
  then show ?case by simp
next
  case (Cons p ps)
  show ?case
  proof (cases "fst p \<le> snd pair")
    case True
    let ?pair = "(fst pair, max (snd pair) (snd p))"
    have "sorted (map fst (?pair # ps))" using Cons.prems(1) by auto
    moreover have "fst ?pair < snd ?pair" using Cons.prems(2) by simp
    moreover have "\<forall>r \<in> set ps. fst r < snd r" using Cons.prems(3) by simp
    ultimately have "sorted_wrt (\<lambda>x y. snd x < fst y) (merge_loop ?pair ps)
      \<and> (\<forall>r \<in> set (merge_loop ?pair ps). fst r < snd r \<and> fst ?pair \<le> fst r)"
      by (rule Cons.IH)
    then show ?thesis using True by simp
  next
    case False
    have "sorted (map fst (p # ps))" using Cons.prems(1) by simp
    moreover have "fst p < snd p" using Cons.prems(3) by simp
    moreover have "\<forall>r \<in> set ps. fst r < snd r" using Cons.prems(3) by simp
    ultimately have ih: "sorted_wrt (\<lambda>x y. snd x < fst y) (merge_loop p ps)
      \<and> (\<forall>r \<in> set (merge_loop p ps). fst r < snd r \<and> fst p \<le> fst r)"
      by (rule Cons.IH)
    have "fst pair \<le> fst p" using Cons.prems(1) by simp
    then show ?thesis using False ih Cons.prems(2) by auto
  qed
qed

lemma to_whammy_range_beats:
  "to_whammy_range conv r = Some w \<Longrightarrow> beat (wr_start w) = fst r \<and> beat (wr_end w) = snd r"
  by (auto simp: to_whammy_range_def split: option.splits)

lemma to_whammy_ranges_beats:
  "to_whammy_ranges conv rs = Some ws \<Longrightarrow>
   map (\<lambda>w. (beat (wr_start w), beat (wr_end w))) ws = rs"
proof (induction rs arbitrary: ws)
  case Nil
  then show ?case by simp
next
  case (Cons r rs)
  then show ?case by (auto split: option.splits dest: to_whammy_range_beats)
qed

lemma merged_disjoint_sorted:
  assumes "sorted_wrt (\<lambda>x y. snd x < fst y) rs" and "\<forall>r \<in> set rs. fst r < snd r"
    and "map (\<lambda>w. (beat (wr_start w), beat (wr_end w))) ws = rs"
  shows "ranges_disjoint_sorted ws \<and> (\<forall>w \<in> set ws. beat (wr_start w) < beat (wr_end w))"
proof -
  have a: "sorted_wrt (\<lambda>x y. beat (wr_end x) < beat (wr_start y)) ws"
    using assms(1) unfolding assms(3)[symmetric] by (simp add: sorted_wrt_map)
  have b: "\<forall>w \<in> set ws. beat (wr_start w) < beat (wr_end w)"
    using assms(2) unfolding assms(3)[symmetric] by simp
  have "sorted_wrt (\<lambda>x y. beat (wr_start x) < beat (wr_start y)) ws"
    using a b
  proof (induction ws)
    case Nil
    then show ?case by simp
  next
    case (Cons w ws)
    then show ?case by fastforce
  qed
  then show ?thesis using a b by (simp add: ranges_disjoint_sorted_def)
qed

text \<open>
  C4: whatever the note spans, phrases, resolution, sync track and whammy parameters (and
  whatever the conversions between beats and seconds), the whammy ranges of a constructed
  \<^verbatim>\<open>SpData\<close> are sorted by start and pairwise disjoint, and none is empty.
\<close>

theorem C4_whammy_ranges_disjoint_sorted:
  assumes "SpData_ctor beats_to_seconds seconds_to_beats note_spans phrases resolution sync_track
             early_whammy lazy_whammy = Inr d"
  shows "ranges_disjoint_sorted (m_whammy_ranges d)
         \<and> (\<forall>w \<in> set (m_whammy_ranges d). beat (wr_start w) < beat (wr_end w))"
proof -
  define ranges where "ranges = sort (note_ranges_loop beats_to_seconds seconds_to_beats phrases
      resolution (0.07 * early_whammy) lazy_whammy note_spans)"
  define merged where "merged = (case ranges of [] \<Rightarrow> [] | r # rs \<Rightarrow> merge_loop r rs)"
  from assms obtain conv where
    ws: "to_whammy_ranges conv merged = Some (m_whammy_ranges d)"
    by (auto simp: SpData_ctor_def Let_def ranges_def merged_def split: sum.splits option.splits)
  have ne: "\<forall>r \<in> set ranges. fst r < snd r"
    using note_ranges_loop_nonempty by (auto simp: ranges_def)
  have srt: "sorted (map fst ranges)" by (simp add: ranges_def sorted_pairs_fst)
  have "sorted_wrt (\<lambda>x y. snd x < fst y) merged \<and> (\<forall>r \<in> set merged. fst r < snd r)"
  proof (cases ranges)
    case Nil
    then show ?thesis by (simp add: merged_def)
  next
    case (Cons r rs)
    then show ?thesis using merge_loop_props [of r rs] ne srt by (simp add: merged_def)
  qed
  then show ?thesis using merged_disjoint_sorted to_whammy_ranges_beats [OF ws] by blast
qed

lemma example_sp_data_constructed:
  "SpData_ctor (\<lambda>b. b / 2) (\<lambda>s. s * 2) [(576, 480), (0, 192), (96, 96), (384, 0), (4000, 100)]
     [\<lparr>sp_position = 0, sp_length = 100\<rparr>, \<lparr>sp_position = 500, sp_length = 500\<rparr>] 192
     example_sync_track 0 0 = Inr example_sp_data"
  by (simp add: SpData_ctor_def TimeConverter_ctor_def DEFAULT_BEAT_RATE_def
      phrase_contains_pos_def to_whammy_range_def beats_to_measures_def lower_bound_def
      to_measure_def form_beat_rates_def SP_GAIN_RATE_def MEASURES_PER_BAR_def less_eq_prod_def
      example_sync_track_def example_sp_data_def example_converter_def)

theorem C4_whammy_ranges_disjoint_sorted_witness:
  "SpData_ctor (\<lambda>b. b / 2) (\<lambda>s. s * 2) [(576, 480), (0, 192), (96, 96), (384, 0), (4000, 100)]
     [\<lparr>sp_position = 0, sp_length = 100\<rparr>, \<lparr>sp_position = 500, sp_length = 500\<rparr>] 192
     example_sync_track 0 0 = Inr example_sp_data
   \<and> ranges_disjoint_sorted (m_whammy_ranges example_sp_data)
   \<and> length (m_whammy_ranges example_sp_data) = 2"
  using C4_whammy_ranges_disjoint_sorted [OF example_sp_data_constructed]
    example_sp_data_constructed
  by (simp add: example_sp_data_def)

section \<open>Properties of the propagation of SP\<close>

lemma lower_bound_le: "lower_bound P xs \<le> length xs"
  by (simp add: lower_bound_def length_takeWhile_le)

lemma drop_lower_bound: "drop (lower_bound P xs) xs = dropWhile P xs"
  by (simp add: lower_bound_def dropWhile_eq_drop)

lemma drop_lower_bound_Cons: "drop (lower_bound P xs) xs = y # ys \<Longrightarrow> \<not> P y"
  using hd_dropWhile [of P xs] by (simp add: drop_lower_bound)

lemma whammy_range_loop_total:
  "rates \<noteq> [] \<Longrightarrow> \<exists>r. whammy_range_loop rates start end_beat sp = Some r"
proof (induction rates arbitrary: start sp)
  case Nil
  then show ?case by simp
next
  case (Cons p rest)
  show ?case
  proof (cases rest)
    case Nil
    then show ?thesis by (simp add: Let_def)
  next
    case (Cons q qs)
    then show ?thesis using Cons.IH by (simp add: Let_def)
  qed
qed

lemma propagate_over_whammy_range_total:
  assumes "rates \<noteq> []"
  shows "\<exists>r. propagate_over_whammy_range rates start end_beat sp = Some r"
proof (cases "lower_bound (\<lambda>ts. br_position ts < start) rates = 0")
  case True
  then show ?thesis using assms whammy_range_loop_total [OF assms]
    by (cases rates) (simp_all add: propagate_over_whammy_range_def Let_def)
next
  case False
  have "lower_bound (\<lambda>ts. br_position ts < start) rates - 1 < length rates"
    using False lower_bound_le [of "\<lambda>ts. br_position ts < start" rates] by linarith
  then have "drop (lower_bound (\<lambda>ts. br_position ts < start) rates - 1) rates \<noteq> []" by simp
  then show ?thesis using False whammy_range_loop_total
    by (simp add: propagate_over_whammy_range_def Let_def)
qed

lemma whammy_max_loop_total:
  assumes "rates \<noteq> []"
  shows "\<exists>r. whammy_max_loop rates ranges start end_pos sp = Some r"
proof (induction ranges arbitrary: start sp)
  case Nil
  then show ?case by simp
next
  case (Cons p rest)
  show ?case
  proof (cases "beat (wr_start p) < beat end_pos")
    case False
    then show ?thesis by simp
  next
    case True
    define gap where "gap = (beat (wr_start p) > beat start)"
    define sp1 where "sp1 = (if gap then drain start (wr_start p) sp else sp)"
    define start1 where "start1 = (if gap then wr_start p else start)"
    obtain sp2 where sp2: "propagate_over_whammy_range rates (beat start1)
        (min (beat end_pos) (beat (wr_end p))) sp1 = Some sp2"
      using propagate_over_whammy_range_total [OF assms] by blast
    show ?thesis
      using True sp2 Cons.IH [of "wr_end p" sp2]
      by (simp add: Let_def gap_def [symmetric] sp1_def [symmetric] start1_def [symmetric])
  qed
qed

lemma propagate_sp_over_whammy_max_total:
  "m_beat_rates d \<noteq> [] \<Longrightarrow> \<exists>r. propagate_sp_over_whammy_max d start end_pos sp = Some r"
  by (simp add: propagate_sp_over_whammy_max_def whammy_max_loop_total)

lemma propagate_over_whammy_range_empty:
  assumes "rates \<noteq> []" "sp \<le> 1"
  shows "propagate_over_whammy_range rates x x sp = Some sp"
proof (cases "lower_bound (\<lambda>ts. br_position ts < x) rates = 0")
  case True
  obtain f fs where r: "rates = f # fs" using assms(1) by (cases rates) auto
  have "\<not> br_position f < x" using True r drop_lower_bound_Cons [of "\<lambda>ts. br_position ts < x" rates f fs]
    by simp
  then have "min x (br_position f) = x" by simp
  then show ?thesis using True r assms(2)
    by (simp add: propagate_over_whammy_range_def Let_def)
next
  case False
  have "whammy_range_loop rs x x sp = Some sp" for rs by (cases rs) simp_all
  then show ?thesis using False by (simp add: propagate_over_whammy_range_def Let_def)
qed

lemma whammy_max_same_position:
  assumes "m_beat_rates d \<noteq> []" "sp \<le> 1"
  shows "propagate_sp_over_whammy_max d a a sp = Some sp"
proof (cases "drop (lower_bound (\<lambda>x. beat (wr_end x) \<le> beat a) (m_whammy_ranges d)) (m_whammy_ranges d)")
  case Nil
  then show ?thesis by (simp add: propagate_sp_over_whammy_max_def drain_def)
next
  case (Cons p rest)
  have "beat a < beat (wr_end p)" using drop_lower_bound_Cons [OF Cons] by simp
  then show ?thesis using Cons assms
    by (simp add: propagate_sp_over_whammy_max_def Let_def drain_def
        propagate_over_whammy_range_empty)
qed

text \<open>
  C1, amended: for \<open>a\<close> before \<open>b\<close> (or \<open>a = b\<close>) and \<open>s\<close> in \<open>[0, 1]\<close>,
  \<^verbatim>\<open>propagate_sp_over_whammy_min(a, b, s, b)\<close> is
  \<^verbatim>\<open>propagate_sp_over_whammy_max(a, b, s)\<close> floored at zero. So the maximum is at least the
  minimum exactly when the maximum is not negative.
\<close>

theorem C1_min_is_floored_max:
  assumes "m_beat_rates d \<noteq> []" and "beat a < beat b \<or> a = b" and "0 \<le> s" and "s \<le> 1"
  shows "\<exists>mx. propagate_sp_over_whammy_max d a b s = Some mx
              \<and> propagate_sp_over_whammy_min d a b s b = Some (max mx 0)
              \<and> (mx \<ge> max mx 0 \<longleftrightarrow> 0 \<le> mx)"
proof -
  obtain mx where mx: "propagate_sp_over_whammy_max d a b s = Some mx"
    using propagate_sp_over_whammy_max_total [OF assms(1)] by blast
  have "propagate_sp_over_whammy_min d a b s b = Some (max mx 0)"
  proof (cases "beat a < beat b")
    case True
    then show ?thesis using mx by (simp add: propagate_sp_over_whammy_min_def Let_def)
  next
    case False
    then have ab: "a = b" using assms(2) by simp
    then have "mx = s" using mx whammy_max_same_position [OF assms(1) assms(4), of a] by simp
    then show ?thesis using ab assms(3) by (simp add: propagate_sp_over_whammy_min_def Let_def)
  qed
  then show ?thesis using mx by auto
qed

theorem C1_min_is_floored_max_witness:
  "propagate_sp_over_whammy_max example_sp_data \<lparr>beat = 0, measure_pos = 0\<rparr>
     \<lparr>beat = 5, measure_pos = 2\<rparr> (1 / 2) = Some (7 / 20)
   \<and> propagate_sp_over_whammy_min example_sp_data \<lparr>beat = 0, measure_pos = 0\<rparr>
     \<lparr>beat = 5, measure_pos = 2\<rparr> (1 / 2) \<lparr>beat = 5, measure_pos = 2\<rparr> = Some (7 / 20)"
proof -
  have mx: "propagate_sp_over_whammy_max example_sp_data \<lparr>beat = 0, measure_pos = 0\<rparr>
     \<lparr>beat = 5, measure_pos = 2\<rparr> (1 / 2) = Some (7 / 20)"
    by (simp add: propagate_sp_over_whammy_max_def example_sp_data_def lower_bound_def drain_def
        MEASURES_PER_BAR_def propagate_over_whammy_range_def DEFAULT_NET_SP_GAIN_RATE_def)
  have "m_beat_rates example_sp_data \<noteq> []" by (simp add: example_sp_data_def)
  from C1_min_is_floored_max [OF this, of "\<lparr>beat = 0, measure_pos = 0\<rparr>"
      "\<lparr>beat = 5, measure_pos = 2\<rparr>" "1 / 2"]
  obtain r where r: "propagate_sp_over_whammy_max example_sp_data \<lparr>beat = 0, measure_pos = 0\<rparr>
        \<lparr>beat = 5, measure_pos = 2\<rparr> (1 / 2) = Some r"
      "propagate_sp_over_whammy_min example_sp_data \<lparr>beat = 0, measure_pos = 0\<rparr>
        \<lparr>beat = 5, measure_pos = 2\<rparr> (1 / 2) \<lparr>beat = 5, measure_pos = 2\<rparr> = Some (max r 0)"
    by auto
  from r(1) mx have "r = 7 / 20" by simp
  then have "max r 0 = 7 / 20" by simp
  with r(2) mx show ?thesis by simp
qed

text \<open>
  C1, as stated, fails: in the example, from beat 8 to beat 16 there is no whammy and eight
  measures drain a full bar, so from half a bar the maximum is \<open>- 1/2\<close> while the minimum,
  floored, is \<open>0\<close>.
\<close>

theorem C1_counterexample:
  "propagate_sp_over_whammy_max example_sp_data \<lparr>beat = 8, measure_pos = 5\<rparr>
     \<lparr>beat = 16, measure_pos = 13\<rparr> (1 / 2) = Some (- (1 / 2))
   \<and> propagate_sp_over_whammy_min example_sp_data \<lparr>beat = 8, measure_pos = 5\<rparr>
     \<lparr>beat = 16, measure_pos = 13\<rparr> (1 / 2) \<lparr>beat = 16, measure_pos = 13\<rparr> = Some 0
   \<and> \<not> (- (1 / 2) \<ge> (0::real))"
  by (simp add: propagate_sp_over_whammy_max_def propagate_sp_over_whammy_min_def
      example_sp_data_def lower_bound_def drain_def MEASURES_PER_BAR_def)

section \<open>Properties of TimeConverter\<close>

lemma stamp_le_refl: "stamp_le x x"
  by (simp add: stamp_le_def)

lemma stamp_le_trans: "stamp_le x y \<Longrightarrow> stamp_le y z \<Longrightarrow> stamp_le x z"
  unfolding stamp_le_def by (smt (verit))

lemma lower_bound_before: "i < lower_bound P xs \<Longrightarrow> P (xs ! i)"
  unfolding lower_bound_def
  by (metis nth_mem set_takeWhileD takeWhile_nth)

lemma lower_bound_at: "lower_bound P xs < length xs \<Longrightarrow> \<not> P (xs ! lower_bound P xs)"
  unfolding lower_bound_def by (rule nth_length_takeWhile)


lemma measure_timestamps_loop_mono:
  assumes "0 < resolution"
  shows "0 < last_beat_rate \<Longrightarrow> 0 \<le> last_tick \<Longrightarrow> last_tick < 2 ^ 32 \<Longrightarrow>
    sorted (last_tick # map ts_position tss) \<Longrightarrow>
    list_all (\<lambda>ts. 0 \<le> ts_position ts \<and> ts_position ts < 2 ^ 32
                       \<and> 0 < numerator ts \<and> 0 < denominator ts) tss \<Longrightarrow>
    sorted_wrt stamp_le stamps \<Longrightarrow>
    \<forall>x \<in> set stamps. stamp_le x \<lparr>mt_measure = last_measure, mt_beat = real_of_int last_tick / resolution\<rparr> \<Longrightarrow>
    sorted_wrt stamp_le
      (fst (measure_timestamps_loop resolution stamps last_tick last_beat_rate last_measure tss))"
proof (induction tss arbitrary: stamps last_tick last_beat_rate last_measure)
  case Nil
  then show ?case by simp
next
  case (Cons ts tss)
  define lm' where "lm' = last_measure
            + real_of_int ((ts_position ts - last_tick) mod 2 ^ 32) / (resolution * last_beat_rate)"
  define n where "n = \<lparr>mt_measure = lm', mt_beat = real_of_int (ts_position ts) / resolution\<rparr>"
  define l where "l = \<lparr>mt_measure = last_measure, mt_beat = real_of_int last_tick / resolution\<rparr>"
  have le: "last_tick \<le> ts_position ts" using Cons.prems(4) by simp
  have rng: "0 \<le> ts_position ts" "ts_position ts < 2 ^ 32" "0 < numerator ts" "0 < denominator ts"
    using Cons.prems(5) by simp_all
  have md: "(ts_position ts - last_tick) mod 2 ^ 32 = ts_position ts - last_tick"
    using le rng Cons.prems(2) by (simp add: mod_pos_pos_trivial)
  have md2: "ts_position ts mod 2 ^ 32 = ts_position ts"
    using rng by (simp add: mod_pos_pos_trivial)
  have pos: "0 < resolution * last_beat_rate" using assms Cons.prems(1) by simp
  have lm: "lm' = last_measure + real_of_int (ts_position ts - last_tick) / (resolution * last_beat_rate)"
    unfolding lm'_def md ..
  have ln: "stamp_le l n"
  proof -
    have "real_of_int last_tick / resolution \<le> real_of_int (ts_position ts) / resolution"
      using le assms by (simp add: divide_right_mono)
    moreover have "0 \<le> real_of_int (ts_position ts - last_tick) / (resolution * last_beat_rate)"
      using le pos by simp
    moreover have "(real_of_int last_tick / resolution = real_of_int (ts_position ts) / resolution)
        \<longleftrightarrow> (real_of_int (ts_position ts - last_tick) / (resolution * last_beat_rate) = 0)"
      using assms pos by auto
    ultimately show ?thesis by (simp add: stamp_le_def l_def n_def lm)
  qed
  have all: "\<forall>x \<in> set stamps. stamp_le x n"
    using Cons.prems(7) ln stamp_le_trans unfolding l_def by blast
  have s': "sorted_wrt stamp_le (stamps @ [n])"
    using Cons.prems(6) all by (simp add: sorted_wrt_append)
  have all': "\<forall>x \<in> set (stamps @ [n]). stamp_le x \<lparr>mt_measure = lm', mt_beat = real_of_int (ts_position ts mod 2 ^ 32) / resolution\<rparr>"
    unfolding md2 using all stamp_le_refl by (simp add: n_def)
  have rate: "0 < real_of_int (numerator ts) * DEFAULT_BEAT_RATE / real_of_int (denominator ts)"
    using rng by (simp add: DEFAULT_BEAT_RATE_def)
  have srt: "sorted ((ts_position ts mod 2 ^ 32) # map ts_position tss)"
    unfolding md2 using Cons.prems(4) by simp
  have rest: "list_all (\<lambda>ts. 0 \<le> ts_position ts \<and> ts_position ts < 2 ^ 32
                       \<and> 0 < numerator ts \<and> 0 < denominator ts) tss"
    using Cons.prems(5) by simp
  have "0 \<le> ts_position ts mod 2 ^ 32" "ts_position ts mod 2 ^ 32 < 2 ^ 32" by simp_all
  from Cons.IH [OF rate this srt rest s' all']
  show ?case by (simp add: Let_def lm'_def n_def)
qed

lemma TimeConverter_ctor_mono:
  assumes "time_sigs_wf (m_time_sigs sync_track)" "0 < resolution"
    "TimeConverter_ctor sync_track resolution = Inr conv"
  shows "sorted_wrt stamp_le (m_measure_timestamps conv)"
proof -
  have tl: "list_all (\<lambda>ts. 0 \<le> ts_position ts \<and> ts_position ts < 2 ^ 32
                       \<and> 0 < numerator ts \<and> 0 < denominator ts) (m_time_sigs sync_track)"
    using assms(1) by (simp add: time_sigs_wf_def)
  then have "\<forall>p \<in> set (map ts_position (m_time_sigs sync_track)). 0 \<le> p"
    by (auto simp: list_all_iff)
  then have srt: "sorted (0 # map ts_position (m_time_sigs sync_track))"
    using assms(1) by (simp add: time_sigs_wf_def)
  have "sorted_wrt stamp_le
      (fst (measure_timestamps_loop resolution [] 0 DEFAULT_BEAT_RATE 0 (m_time_sigs sync_track)))"
    by (rule measure_timestamps_loop_mono [OF assms(2) _ _ _ srt tl])
       (simp_all add: DEFAULT_BEAT_RATE_def)
  then show ?thesis using assms(3)
    by (auto simp: TimeConverter_ctor_def split: prod.splits if_splits)
qed








section \<open>The integration over one whammy range\<close>

text \<open>
  Arithmetic of one sub-range: the amount \<open>s + d \<sqdot> r\<close> after \<open>d\<close> beats at rate \<open>r\<close>.
\<close>

lemma gain_neg_rate:
  fixes s d r :: real
  assumes "0 \<le> s" "0 \<le> d" "s + d * r < 0"
  shows "r < 0 \<and> 0 < d"
proof -
  have "d * r < 0" using assms by linarith
  then show ?thesis using assms(2) by (metis mult_less_0_iff not_less order.asym)
qed

lemma neg_div_nonneg:
  fixes s r :: real
  assumes "0 \<le> s" "r < 0"
  shows "0 \<le> - s / r"
proof -
  have "s / r \<le> 0" using assms by (rule divide_nonneg_neg)
  then show ?thesis by simp
qed

lemma gain_zero_at:
  fixes s r :: real
  assumes "r < 0"
  shows "s + (- s / r) * r = 0"
  using assms by simp

lemma gain_sign:
  fixes s d r :: real
  assumes "r < 0"
  shows "0 \<le> s + d * r \<longleftrightarrow> d \<le> - s / r"
proof -
  have "0 \<le> s + d * r \<longleftrightarrow> d * r \<ge> - s" by linarith
  also have "\<dots> \<longleftrightarrow> d \<le> - s / r" using assms by (simp add: pos_divide_le_eq neg_le_divide_eq field_simps)
  finally show ?thesis .
qed

lemma gain_between:
  fixes s d d' r :: real
  assumes "0 \<le> s" "0 \<le> s + d * r" "0 \<le> d'" "d' \<le> d"
  shows "0 \<le> s + d' * r"
proof (cases "0 \<le> r")
  case True
  then have "0 \<le> d' * r" using assms(3) by simp
  then show ?thesis using assms(1) by linarith
next
  case False
  then have "d * r \<le> d' * r" using assms(4) by (simp add: mult_right_mono_neg)
  then show ?thesis using assms(2) by linarith
qed

lemma whammy_range_loop_same: "whammy_range_loop rs e e s = Some s"
  by (cases rs) simp_all

lemma endpoint_loop_same: "endpoint_loop rs e e s = Some e"
  by (cases rs) simp_all

lemma loop_unfold:
  "start < e \<Longrightarrow> whammy_range_loop (p # rest) start e s =
     (if s + (sub_end rest e - start) * net_sp_gain_rate p < 0 then Some (- 1)
      else whammy_range_loop rest (sub_end rest e) e
             (min (s + (sub_end rest e - start) * net_sp_gain_rate p) 1))"
  by (simp add: Let_def sub_end_def whammy_range_loop.simps endpoint_loop.simps)

lemma endpoint_unfold:
  "start < e \<Longrightarrow> endpoint_loop (p # rest) start e s =
     (if s + (sub_end rest e - start) * net_sp_gain_rate p < 0
      then Some (start + (- s / net_sp_gain_rate p))
      else endpoint_loop rest (sub_end rest e) e
             (min (s + (sub_end rest e - start) * net_sp_gain_rate p) 1))"
  by (simp add: Let_def sub_end_def whammy_range_loop.simps endpoint_loop.simps)

declare whammy_range_loop.simps(2) [simp del] endpoint_loop.simps(2) [simp del]

lemma rest_ok_Cons: "rest_ok (nxt # rest) start \<Longrightarrow> rest_ok rest (br_position nxt) \<and> start \<le> br_position nxt"
  by (auto simp: rest_ok_def list_all_iff)

lemma sub_end_bounds: "rest_ok rest start \<Longrightarrow> start \<le> e \<Longrightarrow> start \<le> sub_end rest e \<and> sub_end rest e \<le> e"
  by (cases rest) (auto simp: sub_end_def rest_ok_def)

lemma sub_end_mono: "e \<le> e' \<Longrightarrow> sub_end rest e \<le> sub_end rest e'"
  by (cases rest) (auto simp: sub_end_def)

text \<open>
  The loop returns \<open>- 1\<close> or an amount in \<open>[0, 1]\<close>; when it does not run out up to \<open>e\<close>
  it does not run out up to any earlier beat; and when it runs out, the end point found by the
  loop of \<^verbatim>\<open>whammy_propagation_endpoint\<close> is the beat up to which the amount is not negative,
  where it is zero.
\<close>

lemma loop_range:
  "rest_ok rest start \<Longrightarrow> 0 \<le> s \<Longrightarrow> s \<le> 1 \<Longrightarrow> start \<le> e \<Longrightarrow>
   \<exists>r. whammy_range_loop (p # rest) start e s = Some r \<and> (r = - 1 \<or> (0 \<le> r \<and> r \<le> 1))"
proof (induction rest arbitrary: p start s)
  case Nil
  then show ?case by (cases "start < e") (auto simp: loop_unfold sub_end_def whammy_range_loop_same)
next
  case (Cons nxt rest)
  show ?case
  proof (cases "start < e")
    case False
    then have "start = e" using Cons.prems by simp
    then show ?thesis using Cons.prems by (simp add: whammy_range_loop_same)
  next
    case True
    let ?sub = "sub_end (nxt # rest) e"
    let ?g = "s + (?sub - start) * net_sp_gain_rate p"
    show ?thesis
    proof (cases "?g < 0")
      case True
      then show ?thesis using \<open>start < e\<close> by (simp add: loop_unfold)
    next
      case False
      have ok: "rest_ok rest (br_position nxt)" "start \<le> br_position nxt"
        using rest_ok_Cons [OF Cons.prems(1)] by simp_all
      show ?thesis
      proof (cases "e \<le> br_position nxt")
        case True
        then have "?sub = e" by (simp add: sub_end_def)
        then show ?thesis using False \<open>start < e\<close>
          by (simp add: loop_unfold whammy_range_loop_same)
      next
        case f: False
        then have sub: "?sub = br_position nxt" by (simp add: sub_end_def)
        have "\<exists>r. whammy_range_loop (nxt # rest) (br_position nxt) e (min ?g 1) = Some r
                \<and> (r = - 1 \<or> (0 \<le> r \<and> r \<le> 1))"
          using Cons.IH [OF ok(1), of "min ?g 1" nxt] False f by simp
        then show ?thesis using False \<open>start < e\<close> sub
          by (simp add: loop_unfold)
      qed
    qed
  qed
qed

lemma loop_prefix_nonneg:
  "rest_ok rest start \<Longrightarrow> 0 \<le> s \<Longrightarrow> s \<le> 1 \<Longrightarrow> start \<le> y \<Longrightarrow> y \<le> e \<Longrightarrow>
   whammy_range_loop (p # rest) start e s = Some r \<Longrightarrow> 0 \<le> r \<Longrightarrow>
   \<exists>r'. whammy_range_loop (p # rest) start y s = Some r' \<and> 0 \<le> r'"
proof (induction rest arbitrary: p start s)
  case Nil
  show ?case
  proof (cases "start < y")
    case False
    then have "start = y" using Nil.prems by simp
    then show ?thesis using Nil.prems by (simp add: whammy_range_loop_same)
  next
    case True
    then have se: "start < e" using Nil.prems by simp
    have ge: "0 \<le> s + (e - start) * net_sp_gain_rate p"
      using Nil.prems(6,7) se by (simp add: loop_unfold sub_end_def split: if_splits)
    have "0 \<le> s + (y - start) * net_sp_gain_rate p"
      using gain_between [OF Nil.prems(2) ge, of "y - start"] Nil.prems(4,5) by simp
    then show ?thesis using True
      by (simp add: loop_unfold sub_end_def whammy_range_loop_same)
  qed
next
  case (Cons nxt rest)
  have ok: "rest_ok rest (br_position nxt)" "start \<le> br_position nxt"
    using rest_ok_Cons [OF Cons.prems(1)] by simp_all
  show ?case
  proof (cases "start < y")
    case False
    then have "start = y" using Cons.prems by simp
    then show ?thesis using Cons.prems by (simp add: whammy_range_loop_same)
  next
    case True
    then have se: "start < e" using Cons.prems by simp
    let ?sube = "sub_end (nxt # rest) e"
    let ?suby = "sub_end (nxt # rest) y"
    let ?ge = "s + (?sube - start) * net_sp_gain_rate p"
    let ?gy = "s + (?suby - start) * net_sp_gain_rate p"
    have ge: "0 \<le> ?ge" and rec: "whammy_range_loop (nxt # rest) ?sube e (min ?ge 1) = Some r"
      using Cons.prems(6,7) se by (simp_all add: loop_unfold split: if_splits)
    have sb: "start \<le> ?suby" "?suby \<le> y"
      using sub_end_bounds [OF Cons.prems(1), of y] Cons.prems(4) by simp_all
    have "?suby \<le> ?sube" using sub_end_mono [OF Cons.prems(5)] by simp
    then have gy: "0 \<le> ?gy"
      using gain_between [OF Cons.prems(2) ge, of "?suby - start"] sb by simp
    show ?thesis
    proof (cases "y \<le> br_position nxt")
      case True
      then have "?suby = y" by (simp add: sub_end_def)
      then show ?thesis using gy \<open>start < y\<close>
        by (simp add: loop_unfold whammy_range_loop_same)
    next
      case False
      then have sy: "?suby = br_position nxt" and se': "?sube = br_position nxt"
        using Cons.prems(5) by (simp_all add: sub_end_def)
      have "\<exists>r'. whammy_range_loop (nxt # rest) (br_position nxt) y (min ?ge 1) = Some r' \<and> 0 \<le> r'"
        using Cons.IH [OF ok(1), of "min ?ge 1" nxt] ge False Cons.prems(5,7) rec se'
        by simp
      then show ?thesis using gy \<open>start < y\<close> sy se'
        by (simp add: loop_unfold)
    qed
  qed
qed

lemma loop_crossing:
  "rest_ok rest start \<Longrightarrow> 0 \<le> s \<Longrightarrow> s \<le> 1 \<Longrightarrow> start \<le> e \<Longrightarrow> e \<le> e' \<Longrightarrow>
   whammy_range_loop (p # rest) start e s = Some r \<Longrightarrow> r < 0 \<Longrightarrow>
   \<exists>c. endpoint_loop (p # rest) start e' s = Some c \<and> start \<le> c \<and> c < e
       \<and> whammy_range_loop (p # rest) start c s = Some 0
       \<and> (\<forall>y. start \<le> y \<and> y \<le> e \<longrightarrow>
             (\<exists>r'. whammy_range_loop (p # rest) start y s = Some r' \<and> (0 \<le> r' \<longleftrightarrow> y \<le> c)))"
proof (induction rest arbitrary: p start s)
  case Nil
  have se: "start < e" using Nil.prems by (cases "start < e") (auto simp: whammy_range_loop_same)
  then have se': "start < e'" using Nil.prems by simp
  let ?rate = "net_sp_gain_rate p"
  have neg: "s + (e - start) * ?rate < 0"
    using Nil.prems(6,7) se
    by (auto simp: loop_unfold sub_end_def whammy_range_loop_same split: if_splits)
  have rt: "?rate < 0" "0 < e - start" using gain_neg_rate [OF Nil.prems(2) _ neg] se by simp_all
  have neg': "s + (e' - start) * ?rate < 0"
  proof -
    have "(e' - start) * ?rate \<le> (e - start) * ?rate"
      using rt Nil.prems(5) by (simp add: mult_right_mono_neg)
    then show ?thesis using neg by linarith
  qed
  define c where "c = start + (- s / ?rate)"
  have c0: "0 \<le> - s / ?rate" using neg_div_nonneg [OF Nil.prems(2) rt(1)] .
  have cs: "start \<le> c" using c0 by (simp add: c_def)
  have ce: "c < e"
  proof -
    have "\<not> 0 \<le> s + (e - start) * ?rate" using neg by simp
    then have "\<not> e - start \<le> - s / ?rate" using gain_sign [OF rt(1)] by simp
    then show ?thesis by (simp add: c_def)
  qed
  have ep: "endpoint_loop [p] start e' s = Some c"
    using se' neg' by (simp add: endpoint_unfold sub_end_def c_def)
  have at: "whammy_range_loop [p] start y s =
      (if start < y then (if 0 \<le> s + (y - start) * ?rate then Some (min (s + (y - start) * ?rate) 1) else Some (- 1))
       else Some s)" if "start \<le> y" for y
    using that by (cases "start < y") (auto simp: loop_unfold sub_end_def whammy_range_loop_same)
  have sgn: "0 \<le> s + (y - start) * ?rate \<longleftrightarrow> y \<le> c" for y
    using gain_sign [OF rt(1), of s "y - start"] by (auto simp: c_def)
  have zero: "whammy_range_loop [p] start c s = Some 0"
  proof (cases "start < c")
    case True
    have "s + (c - start) * ?rate = 0" using gain_zero_at [OF rt(1), of s] by (simp add: c_def)
    then show ?thesis using True at [OF cs] by simp
  next
    case False
    then have "c = start" using cs by simp
    then have "s = 0" using rt by (simp add: c_def)
    then show ?thesis using at [OF cs] False by simp
  qed
  have all: "\<forall>y. start \<le> y \<and> y \<le> e \<longrightarrow>
             (\<exists>r'. whammy_range_loop [p] start y s = Some r' \<and> (0 \<le> r' \<longleftrightarrow> y \<le> c))"
  proof (intro allI impI)
    fix y assume y: "start \<le> y \<and> y \<le> e"
    show "\<exists>r'. whammy_range_loop [p] start y s = Some r' \<and> (0 \<le> r' \<longleftrightarrow> y \<le> c)"
    proof (cases "start < y")
      case True
      then show ?thesis using at [of y] y sgn [of y] by auto
    next
      case False
      then show ?thesis using at [of y] y cs Nil.prems(2) by auto
    qed
  qed
  show ?case using ep cs ce zero all by blast
next
  case (Cons nxt rest)
  have ok: "rest_ok rest (br_position nxt)" "start \<le> br_position nxt"
    using rest_ok_Cons [OF Cons.prems(1)] by simp_all
  have se: "start < e" using Cons.prems by (cases "start < e") (auto simp: whammy_range_loop_same)
  then have se': "start < e'" using Cons.prems by simp
  let ?rate = "net_sp_gain_rate p"
  let ?sube = "sub_end (nxt # rest) e"
  let ?ge = "s + (?sube - start) * ?rate"
  have sbe: "start \<le> ?sube" "?sube \<le> e"
    using sub_end_bounds [OF Cons.prems(1), of e] Cons.prems(4) by simp_all
  show ?case
  proof (cases "?ge < 0")
    case True
    have rt: "?rate < 0" "0 < ?sube - start" using gain_neg_rate [OF Cons.prems(2) _ True] sbe by simp_all
    let ?sube' = "sub_end (nxt # rest) e'"
    have "?sube \<le> ?sube'" using sub_end_mono [OF Cons.prems(5)] by simp
    then have "(?sube' - start) * ?rate \<le> (?sube - start) * ?rate"
      using rt by (simp add: mult_right_mono_neg)
    then have neg': "s + (?sube' - start) * ?rate < 0" using True by linarith
    define c where "c = start + (- s / ?rate)"
    have c0: "0 \<le> - s / ?rate" using neg_div_nonneg [OF Cons.prems(2) rt(1)] .
    have cs: "start \<le> c" using c0 by (simp add: c_def)
    have csub: "c < ?sube"
    proof -
      have "\<not> 0 \<le> s + (?sube - start) * ?rate" using True by simp
      then have "\<not> ?sube - start \<le> - s / ?rate" using gain_sign [OF rt(1)] by simp
      then show ?thesis by (simp add: c_def)
    qed
    then have ce: "c < e" using sbe by simp
    have cn: "c < br_position nxt" using csub by (simp add: sub_end_def)
    have ep: "endpoint_loop (p # nxt # rest) start e' s = Some c"
      using se' neg' by (simp add: endpoint_unfold c_def)
    have sgn: "0 \<le> s + (y - start) * ?rate \<longleftrightarrow> y \<le> c" for y
      using gain_sign [OF rt(1), of s "y - start"] by (auto simp: c_def)
    have at_low: "whammy_range_loop (p # nxt # rest) start y s =
        (if start < y then (if 0 \<le> s + (y - start) * ?rate then Some (min (s + (y - start) * ?rate) 1) else Some (- 1))
         else Some s)" if "start \<le> y" "y \<le> br_position nxt" for y
    proof (cases "start < y")
      case True
      have "sub_end (nxt # rest) y = y" using that by (simp add: sub_end_def)
      then show ?thesis using True by (auto simp: loop_unfold whammy_range_loop_same)
    next
      case False
      then show ?thesis using that by (simp add: whammy_range_loop_same)
    qed
    have zero: "whammy_range_loop (p # nxt # rest) start c s = Some 0"
    proof (cases "start < c")
      case True
      have "s + (c - start) * ?rate = 0" using gain_zero_at [OF rt(1), of s] by (simp add: c_def)
      then show ?thesis using True at_low [OF cs] cn by simp
    next
      case False
      then have "c = start" using cs by simp
      then have "s = 0" using rt by (simp add: c_def)
      then show ?thesis using at_low [OF cs] cn False by simp
    qed
    have all: "\<forall>y. start \<le> y \<and> y \<le> e \<longrightarrow>
             (\<exists>r'. whammy_range_loop (p # nxt # rest) start y s = Some r' \<and> (0 \<le> r' \<longleftrightarrow> y \<le> c))"
    proof (intro allI impI)
      fix y assume y: "start \<le> y \<and> y \<le> e"
      show "\<exists>r'. whammy_range_loop (p # nxt # rest) start y s = Some r' \<and> (0 \<le> r' \<longleftrightarrow> y \<le> c)"
      proof (cases "y \<le> br_position nxt")
        case True
        show ?thesis
        proof (cases "start < y")
          case True
          then show ?thesis using at_low [of y] y \<open>y \<le> br_position nxt\<close> sgn [of y] by auto
        next
          case False
          then show ?thesis using at_low [of y] y \<open>y \<le> br_position nxt\<close> cs Cons.prems(2) by auto
        qed
      next
        case False
        then have sy: "sub_end (nxt # rest) y = br_position nxt" by (simp add: sub_end_def)
        have "start < y" using False ok by simp
        moreover have "\<not> 0 \<le> s + (br_position nxt - start) * ?rate"
          using sgn [of "br_position nxt"] cn by simp
        ultimately have "whammy_range_loop (p # nxt # rest) start y s = Some (- 1)"
          using sy by (simp add: loop_unfold)
        then show ?thesis using False cn by simp
      qed
    qed
    show ?thesis using ep cs ce zero all by blast
  next
    case False
    then have ge: "0 \<le> ?ge" by simp
    have rec: "whammy_range_loop (nxt # rest) ?sube e (min ?ge 1) = Some r"
      using Cons.prems(6) se False by (simp add: loop_unfold)
    have ne: "br_position nxt < e"
    proof (rule ccontr)
      assume "\<not> br_position nxt < e"
      then have "?sube = e" by (simp add: sub_end_def)
      then have "r = min ?ge 1" using rec by (simp add: whammy_range_loop_same)
      then show False using ge Cons.prems(7) by simp
    qed
    then have sube: "?sube = br_position nxt" by (simp add: sub_end_def)
    have sube': "sub_end (nxt # rest) e' = br_position nxt" using ne Cons.prems(5) by (simp add: sub_end_def)
    let ?s' = "min ?ge 1"
    have s': "0 \<le> ?s'" "?s' \<le> 1" using ge by simp_all
    from Cons.IH [OF ok(1) s' _ Cons.prems(5), of nxt] rec sube ne Cons.prems(7)
    obtain c where c: "endpoint_loop (nxt # rest) (br_position nxt) e' ?s' = Some c"
        "br_position nxt \<le> c" "c < e"
        "whammy_range_loop (nxt # rest) (br_position nxt) c ?s' = Some 0"
        "\<forall>y. br_position nxt \<le> y \<and> y \<le> e \<longrightarrow>
             (\<exists>r'. whammy_range_loop (nxt # rest) (br_position nxt) y ?s' = Some r' \<and> (0 \<le> r' \<longleftrightarrow> y \<le> c))"
      by auto
    have ep: "endpoint_loop (p # nxt # rest) start e' s = Some c"
      using se' sube' False sube c(1) by (simp add: endpoint_unfold)
    have cs: "start \<le> c" using ok(2) c(2) by simp
    have at_high: "whammy_range_loop (p # nxt # rest) start y s =
        whammy_range_loop (nxt # rest) (br_position nxt) y ?s'" if "br_position nxt \<le> y" for y
    proof (cases "start < y")
      case True
      have "sub_end (nxt # rest) y = br_position nxt" using that by (simp add: sub_end_def)
      then show ?thesis using True False sube by (simp add: loop_unfold)
    next
      case False
      then have eq: "y = start" "br_position nxt = start" using that ok(2) by simp_all
      have "?sube - start = 0" using sube eq by simp
      then have "?ge = s" by (simp only: mult_zero_left add_0_right)
      then have "?s' = s" using Cons.prems(3) by (simp only: min_def if_True)
      then show ?thesis using eq by (simp add: whammy_range_loop_same)
    qed
    have at_low: "\<exists>r'. whammy_range_loop (p # nxt # rest) start y s = Some r' \<and> 0 \<le> r'"
      if "start \<le> y" "y \<le> br_position nxt" for y
    proof (cases "start < y")
      case True
      have sy: "sub_end (nxt # rest) y = y" using that by (simp add: sub_end_def)
      have "0 \<le> s + (y - start) * ?rate"
        using gain_between [OF Cons.prems(2) ge, of "y - start"] that sube by simp
      then show ?thesis using True sy by (simp add: loop_unfold whammy_range_loop_same)
    next
      case False
      then show ?thesis using that Cons.prems(2) by (simp add: whammy_range_loop_same)
    qed
    have zero: "whammy_range_loop (p # nxt # rest) start c s = Some 0"
      using at_high [OF c(2)] c(4) by simp
    have all: "\<forall>y. start \<le> y \<and> y \<le> e \<longrightarrow>
             (\<exists>r'. whammy_range_loop (p # nxt # rest) start y s = Some r' \<and> (0 \<le> r' \<longleftrightarrow> y \<le> c))"
    proof (intro allI impI)
      fix y assume y: "start \<le> y \<and> y \<le> e"
      show "\<exists>r'. whammy_range_loop (p # nxt # rest) start y s = Some r' \<and> (0 \<le> r' \<longleftrightarrow> y \<le> c)"
      proof (cases "br_position nxt \<le> y")
        case True
        then show ?thesis using at_high [OF True] c(5) y by simp
      next
        case False
        then have "y \<le> c" using c(2) by simp
        then show ?thesis using at_low [of y] y False by auto
      qed
    qed
    show ?thesis using ep cs c(3) zero all by blast
  qed
qed

lemma dropWhile_sorted_ge:
  "sorted (map f xs) \<Longrightarrow> list_all (\<lambda>x. (b::real) \<le> f x) (dropWhile (\<lambda>x. f x < b) xs)"
proof (induction xs)
  case Nil
  then show ?case by simp
next
  case (Cons x xs)
  then show ?case by (auto simp: list_all_iff)
qed

lemma rest_ok_drop_lower_bound:
  assumes "sorted (map br_position rates)"
  shows "rest_ok (drop (lower_bound (\<lambda>ts. br_position ts < b) rates) rates) b"
  unfolding rest_ok_def drop_lower_bound
  using assms dropWhile_sorted_ge [of br_position rates b]
  by (simp add: sorted_wrt_dropWhile sorted_map)

lemma propagate_as_loop:
  assumes "beat_rates_wf rates" "0 \<le> s" "s \<le> 1"
  shows "\<exists>q rest b0 S. rest_ok rest b0 \<and> 0 \<le> S \<and> S \<le> 1 \<and> b \<le> b0
     \<and> (\<forall>y. b0 \<le> y \<longrightarrow>
            propagate_over_whammy_range rates b y s = whammy_range_loop (q # rest) b0 y S
          \<and> whammy_propagation_endpoint rates b y s = endpoint_loop (q # rest) b0 y S)
     \<and> (\<forall>y. b \<le> y \<and> y \<le> b0 \<longrightarrow>
            (\<exists>r'. propagate_over_whammy_range rates b y s = Some r' \<and> 0 \<le> r' \<and> r' \<le> 1))"
proof (cases "lower_bound (\<lambda>ts. br_position ts < b) rates = 0")
  case False
  let ?i = "lower_bound (\<lambda>ts. br_position ts < b) rates"
  have il: "?i - 1 < length rates" using False lower_bound_le [of _ rates] by (metis Suc_pred' Suc_le_eq neq0_conv)
  have d: "drop (?i - 1) rates = rates ! (?i - 1) # drop ?i rates"
    using Cons_nth_drop_Suc [OF il] False by simp
  have ok: "rest_ok (drop ?i rates) b" using assms(1) by (simp add: beat_rates_wf_def rest_ok_drop_lower_bound)
  have eq: "propagate_over_whammy_range rates b y s = whammy_range_loop (rates ! (?i - 1) # drop ?i rates) b y s
          \<and> whammy_propagation_endpoint rates b y s = endpoint_loop (rates ! (?i - 1) # drop ?i rates) b y s" for y
    using False d by (simp add: propagate_over_whammy_range_def whammy_propagation_endpoint_def Let_def)
  have "\<exists>r'. propagate_over_whammy_range rates b y s = Some r' \<and> 0 \<le> r' \<and> r' \<le> 1" if "b \<le> y \<and> y \<le> b" for y
  proof -
    have "y = b" using that by simp
    then show ?thesis using eq [of b] assms by (simp add: whammy_range_loop_same)
  qed
  then show ?thesis using ok assms eq by blast
next
  case True
  obtain f fs where r: "rates = f # fs" using assms(1) by (cases rates) (auto simp: beat_rates_wf_def)
  have fb: "b \<le> br_position f"
    using True r by (auto simp: lower_bound_def split: if_splits)
  have ok: "rest_ok fs (br_position f)" using assms(1) r by (auto simp: beat_rates_wf_def rest_ok_def list_all_iff)
  define S where "S = min (s + (br_position f - b) * DEFAULT_NET_SP_GAIN_RATE) 1"
  have S: "0 \<le> S" "S \<le> 1" using assms(2) fb by (simp_all add: S_def DEFAULT_NET_SP_GAIN_RATE_def)
  have hi: "propagate_over_whammy_range rates b y s = whammy_range_loop (f # fs) (br_position f) y S
          \<and> whammy_propagation_endpoint rates b y s = endpoint_loop (f # fs) (br_position f) y S"
    if "br_position f \<le> y" for y
  proof -
    have "min y (br_position f) = br_position f" using that by simp
    then show ?thesis using True r
      by (simp add: propagate_over_whammy_range_def whammy_propagation_endpoint_def Let_def S_def)
  qed
  have lo: "\<exists>r'. propagate_over_whammy_range rates b y s = Some r' \<and> 0 \<le> r' \<and> r' \<le> 1"
    if "b \<le> y \<and> y \<le> br_position f" for y
  proof -
    have m: "min y (br_position f) = y" using that by simp
    have "0 \<le> (y - b) * DEFAULT_NET_SP_GAIN_RATE" using that by (simp add: DEFAULT_NET_SP_GAIN_RATE_def)
    then have "0 \<le> min (s + (y - b) * DEFAULT_NET_SP_GAIN_RATE) 1" using assms(2) by simp
    then show ?thesis using True r m
      by (simp add: propagate_over_whammy_range_def Let_def whammy_range_loop_same)
  qed
  show ?thesis using ok S fb hi lo by blast
qed

lemma propagate_range:
  assumes "beat_rates_wf rates" "0 \<le> s" "s \<le> 1" "b \<le> e"
  shows "\<exists>r. propagate_over_whammy_range rates b e s = Some r \<and> (r = - 1 \<or> (0 \<le> r \<and> r \<le> 1))"
proof -
  from propagate_as_loop [OF assms(1-3), of b]
  obtain q rest b0 S where n: "rest_ok rest b0" "0 \<le> S" "S \<le> 1" "b \<le> b0"
    "\<And>y. b0 \<le> y \<Longrightarrow> propagate_over_whammy_range rates b y s = whammy_range_loop (q # rest) b0 y S"
    "\<And>y. b \<le> y \<and> y \<le> b0 \<Longrightarrow> \<exists>r'. propagate_over_whammy_range rates b y s = Some r' \<and> 0 \<le> r' \<and> r' \<le> 1"
    by blast
  show ?thesis
  proof (cases "b0 \<le> e")
    case True
    then show ?thesis using n(5) [OF True] loop_range [OF n(1-3) True, of q] by simp
  next
    case False
    then show ?thesis using n(6) [of e] assms(4) by auto
  qed
qed

lemma propagate_prefix_nonneg:
  assumes "beat_rates_wf rates" "0 \<le> s" "s \<le> 1" "b \<le> y" "y \<le> e"
    "propagate_over_whammy_range rates b e s = Some r" "0 \<le> r"
  shows "\<exists>r'. propagate_over_whammy_range rates b y s = Some r' \<and> 0 \<le> r'"
proof -
  from propagate_as_loop [OF assms(1-3), of b]
  obtain q rest b0 S where n: "rest_ok rest b0" "0 \<le> S" "S \<le> 1" "b \<le> b0"
    "\<And>y. b0 \<le> y \<Longrightarrow> propagate_over_whammy_range rates b y s = whammy_range_loop (q # rest) b0 y S"
    "\<And>y. b \<le> y \<and> y \<le> b0 \<Longrightarrow> \<exists>r'. propagate_over_whammy_range rates b y s = Some r' \<and> 0 \<le> r' \<and> r' \<le> 1"
    by blast
  show ?thesis
  proof (cases "b0 \<le> y")
    case True
    then have e: "b0 \<le> e" using assms(5) by simp
    show ?thesis
      using loop_prefix_nonneg [OF n(1-3) True assms(5), of q r] n(5) [OF True] n(5) [OF e] assms(6,7)
      by simp
  next
    case False
    then show ?thesis using n(6) [of y] assms(4) by auto
  qed
qed

lemma propagate_crossing:
  assumes "beat_rates_wf rates" "0 \<le> s" "s \<le> 1" "b \<le> e" "e \<le> e'"
    "propagate_over_whammy_range rates b e s = Some r" "r < 0"
  shows "\<exists>c. whammy_propagation_endpoint rates b e' s = Some c \<and> b \<le> c \<and> c < e
       \<and> propagate_over_whammy_range rates b c s = Some 0
       \<and> (\<forall>y. b \<le> y \<and> y \<le> e \<longrightarrow>
             (\<exists>r'. propagate_over_whammy_range rates b y s = Some r' \<and> (0 \<le> r' \<longleftrightarrow> y \<le> c)))"
proof -
  from propagate_as_loop [OF assms(1-3), of b]
  obtain q rest b0 S where n: "rest_ok rest b0" "0 \<le> S" "S \<le> 1" "b \<le> b0"
    "\<And>y. b0 \<le> y \<Longrightarrow> propagate_over_whammy_range rates b y s = whammy_range_loop (q # rest) b0 y S"
    "\<And>y. b0 \<le> y \<Longrightarrow> whammy_propagation_endpoint rates b y s = endpoint_loop (q # rest) b0 y S"
    "\<And>y. b \<le> y \<and> y \<le> b0 \<Longrightarrow> \<exists>r'. propagate_over_whammy_range rates b y s = Some r' \<and> 0 \<le> r' \<and> r' \<le> 1"
    by blast
  have be: "b0 \<le> e"
  proof (rule ccontr)
    assume "\<not> b0 \<le> e"
    then show False using n(7) [of e] assms(4,6,7) by auto
  qed
  then have be': "b0 \<le> e'" using assms(5) by simp
  from loop_crossing [OF n(1-3) be assms(5), of q r] n(5) [OF be] assms(6,7)
  obtain c where c: "endpoint_loop (q # rest) b0 e' S = Some c" "b0 \<le> c" "c < e"
      "whammy_range_loop (q # rest) b0 c S = Some 0"
      "\<forall>y. b0 \<le> y \<and> y \<le> e \<longrightarrow>
             (\<exists>r'. whammy_range_loop (q # rest) b0 y S = Some r' \<and> (0 \<le> r' \<longleftrightarrow> y \<le> c))"
    by auto
  have "\<exists>r'. propagate_over_whammy_range rates b y s = Some r' \<and> (0 \<le> r' \<longleftrightarrow> y \<le> c)"
    if y: "b \<le> y \<and> y \<le> e" for y
  proof (cases "b0 \<le> y")
    case True
    then show ?thesis using c(5) n(5) [OF True] y by simp
  next
    case False
    then have "y \<le> c" using c(2) by simp
    then show ?thesis using n(7) [of y] y False by auto
  qed
  then show ?thesis using n(6) [OF be'] c(1-4) n(4) n(5) [OF c(2)] by auto
qed

lemma propagate_over_whammy_range_same:
  assumes "beat_rates_wf rates" "0 \<le> s" "s \<le> 1"
  shows "propagate_over_whammy_range rates x x s = Some s"
proof -
  from propagate_as_loop [OF assms, of x]
  obtain q rest b0 S where n: "rest_ok rest b0" "0 \<le> S" "S \<le> 1" "x \<le> b0"
    "\<And>y. b0 \<le> y \<Longrightarrow> propagate_over_whammy_range rates x y s = whammy_range_loop (q # rest) b0 y S"
    by blast
  show ?thesis
  proof (cases "lower_bound (\<lambda>ts. br_position ts < x) rates = 0")
    case True
    obtain f fs where r: "rates = f # fs" using assms(1) by (cases rates) (auto simp: beat_rates_wf_def)
    have fb: "x \<le> br_position f" using True r by (auto simp: lower_bound_def split: if_splits)
    then have "min x (br_position f) = x" by simp
    then show ?thesis using True r assms(3)
      by (simp add: propagate_over_whammy_range_def Let_def whammy_range_loop_same)
  next
    case False
    then show ?thesis
      by (simp add: propagate_over_whammy_range_def Let_def whammy_range_loop_same)
  qed
qed

section \<open>Positions on the timeline\<close>

lemma timeline_le:
  assumes "conv_ok conv" "on_timeline conv p" "on_timeline conv q"
  shows "beat p \<le> beat q \<longleftrightarrow> measure_pos p \<le> measure_pos q"
proof
  assume "beat p \<le> beat q"
  then show "measure_pos p \<le> measure_pos q"
    using assms unfolding conv_ok_def on_timeline_def by blast
next
  assume m: "measure_pos p \<le> measure_pos q"
  show "beat p \<le> beat q"
  proof (rule ccontr)
    assume "\<not> beat p \<le> beat q"
    then have lt: "beat q \<le> beat p" "beat q \<noteq> beat p" by simp_all
    then have "measure_pos q \<le> measure_pos p"
      using assms unfolding conv_ok_def on_timeline_def by blast
    then have eq: "measure_pos p = measure_pos q" using m by simp
    have "measures_to_beats conv (measure_pos p) = Some (beat p)"
      "measures_to_beats conv (measure_pos q) = Some (beat q)"
      using assms unfolding conv_ok_def on_timeline_def by (metis option.inject)+
    then show False using eq lt by simp
  qed
qed

lemma timeline_eq:
  assumes "conv_ok conv" "on_timeline conv p" "on_timeline conv q" "beat p = beat q"
  shows "p = q"
proof -
  have "measure_pos p = measure_pos q"
    using assms(2,3,4) unfolding on_timeline_def by simp
  then show ?thesis using assms(4) by simp
qed

lemma timeline_less:
  assumes "conv_ok conv" "on_timeline conv p" "on_timeline conv q"
  shows "beat p < beat q \<longleftrightarrow> measure_pos p < measure_pos q"
  using timeline_le [OF assms] timeline_le [OF assms(1) assms(3) assms(2)] by auto

lemma drain_end_point_props:
  assumes "conv_ok conv" "on_timeline conv cur" "0 \<le> s"
  shows "\<exists>p. drain_end_point conv cur s = Some p \<and> on_timeline conv p
           \<and> measure_pos p = measure_pos cur + s * 8 \<and> beat cur \<le> beat p \<and> drain cur p s = 0
           \<and> (\<forall>x. on_timeline conv x \<longrightarrow> (0 \<le> drain cur x s \<longleftrightarrow> beat x \<le> beat p))"
proof -
  let ?m = "measure_pos cur + s * 8"
  obtain b where b: "measures_to_beats conv ?m = Some b" "beats_to_measures conv b = Some ?m"
    using assms(1) unfolding conv_ok_def by blast
  define p where "p = \<lparr>beat = b, measure_pos = ?m\<rparr>"
  have dp: "drain_end_point conv cur s = Some p"
    using b by (simp add: drain_end_point_def Let_def MEASURES_PER_BAR_def p_def)
  have tp: "on_timeline conv p" using b by (simp add: on_timeline_def p_def)
  have mp: "measure_pos p = ?m" by (simp add: p_def)
  have "measure_pos cur \<le> measure_pos p" using assms(3) mp by simp
  then have cp: "beat cur \<le> beat p" using timeline_le [OF assms(1,2) tp] by simp
  have z: "drain cur p s = 0" by (simp add: drain_def mp MEASURES_PER_BAR_def)
  have "0 \<le> drain cur x s \<longleftrightarrow> beat x \<le> beat p" if "on_timeline conv x" for x
  proof -
    have "0 \<le> drain cur x s \<longleftrightarrow> measure_pos x \<le> measure_pos p"
      by (auto simp: drain_def mp MEASURES_PER_BAR_def)
    then show ?thesis using timeline_le [OF assms(1) that tp] by simp
  qed
  then show ?thesis using dp tp mp cp z by blast
qed

lemma drain_mono:
  assumes "conv_ok conv" "on_timeline conv x" "on_timeline conv y" "beat x \<le> beat y"
  shows "drain cur y s \<le> drain cur x s"
  using timeline_le [OF assms(1-3)] assms(4) by (simp add: drain_def MEASURES_PER_BAR_def)

lemma drain_same: "drain cur cur s = s"
  by (simp add: drain_def)

section \<open>The end point of an activation and the balance\<close>

lemma max_loop_Nil: "whammy_max_loop rates [] cur x s = Some (drain cur x s)"
  by simp

lemma max_loop_Cons:
  "whammy_max_loop rates (w # rest) cur x s =
     (if beat (wr_start w) < beat x then
        (if beat (wr_start w) > beat cur \<and> gap_sp w cur s < 0 then Some (gap_sp w cur s)
         else (case propagate_over_whammy_range rates (beat (gap_start w cur))
                      (min (beat x) (beat (wr_end w))) (gap_sp w cur s) of
                 None \<Rightarrow> None
               | Some sp2 \<Rightarrow>
                   if sp2 < 0 \<or> beat x \<le> beat (wr_end w) then Some sp2
                   else whammy_max_loop rates rest (wr_end w) x sp2))
      else Some (drain cur x s))"
  by (simp add: Let_def gap_sp_def gap_start_def)

lemma aep_loop_Nil: "activation_end_loop conv rates [] cur end_pos s = final_end_point conv cur end_pos s"
  by (auto simp: final_end_point_def drain_def Let_def MEASURES_PER_BAR_def)

lemma aep_loop_Cons:
  "activation_end_loop conv rates (w # rest) cur end_pos s =
     (if beat (wr_start w) < beat end_pos then
        (if beat (wr_start w) > beat cur \<and> gap_sp w cur s < 0 then drain_end_point conv cur s
         else (case propagate_over_whammy_range rates (beat (gap_start w cur))
                      (min (beat end_pos) (beat (wr_end w))) (gap_sp w cur s) of
                 None \<Rightarrow> None
               | Some sp2 \<Rightarrow>
                   if sp2 < 0 then
                     whammy_end_point conv rates (beat (gap_start w cur)) (beat end_pos) (gap_sp w cur s)
                   else if beat end_pos \<le> beat (wr_end w) then Some end_pos
                   else activation_end_loop conv rates rest (wr_end w) end_pos sp2))
      else final_end_point conv cur end_pos s)"
  by (auto simp: Let_def gap_sp_def gap_start_def final_end_point_def drain_def MEASURES_PER_BAR_def
      split: option.splits)

declare whammy_max_loop.simps [simp del] activation_end_loop.simps [simp del]

lemmas loop_simps = whammy_max_loop.simps activation_end_loop.simps whammy_range_loop.simps
  endpoint_loop.simps

lemma final_drain_case:
  assumes c: "conv_ok conv" and tc: "on_timeline conv cur" and te: "on_timeline conv end_pos"
    and ce: "beat cur \<le> beat end_pos" and s: "0 \<le> s" "s \<le> 1"
    and M: "\<And>x. on_timeline conv x \<Longrightarrow> beat cur \<le> beat x \<Longrightarrow> beat x \<le> beat end_pos \<Longrightarrow>
              balance x = Some (drain cur x s)"
  shows "\<exists>p. final_end_point conv cur end_pos s = Some p \<and> crossing_spec conv cur end_pos balance p"
proof -
  have le1: "drain cur x s \<le> 1" if "on_timeline conv x" "beat cur \<le> beat x" for x
    using drain_mono [OF c tc that(1) that(2), of cur s] s(2) by (simp add: drain_same)
  show ?thesis
  proof (cases "drain cur end_pos s < 0")
    case True
    from drain_end_point_props [OF c tc s(1)]
    obtain p where p: "drain_end_point conv cur s = Some p" "on_timeline conv p"
        "beat cur \<le> beat p" "drain cur p s = 0"
        "\<And>x. on_timeline conv x \<Longrightarrow> (0 \<le> drain cur x s \<longleftrightarrow> beat x \<le> beat p)"
      by blast
    have pe: "beat p \<le> beat end_pos" using p(5) [OF te] True by simp
    have "balance p = Some 0" using M [OF p(2,3) pe] p(4) by simp
    moreover have "\<exists>r. balance x = Some r \<and> r \<le> 1 \<and> (0 \<le> r \<longleftrightarrow> beat x \<le> beat p)"
      if "on_timeline conv x \<and> beat cur \<le> beat x \<and> beat x \<le> beat end_pos" for x
      using M [of x] le1 [of x] p(5) [of x] that by simp
    ultimately have "crossing_spec conv cur end_pos balance p"
      unfolding crossing_spec_def using p(2,3) pe by blast
    then show ?thesis using True p(1) by (auto simp: final_end_point_def)
  next
    case False
    have "\<exists>r. balance x = Some r \<and> r \<le> 1 \<and> (0 \<le> r \<longleftrightarrow> beat x \<le> beat end_pos)"
      if x: "on_timeline conv x \<and> beat cur \<le> beat x \<and> beat x \<le> beat end_pos" for x
    proof -
      have "drain cur end_pos s \<le> drain cur x s" using drain_mono [OF c _ te] x by simp
      then have "0 \<le> drain cur x s" using False by simp
      then show ?thesis using M [of x] le1 [of x] x by simp
    qed
    then have "crossing_spec conv cur end_pos balance end_pos"
      unfolding crossing_spec_def using te ce by blast
    then show ?thesis using False by (auto simp: final_end_point_def)
  qed
qed

text \<open>
  The two loops over the whammy ranges, side by side: the position returned by the loop of
  \<^verbatim>\<open>activation_end_point\<close> is the point up to which the balance computed by the loop of
  \<^verbatim>\<open>propagate_sp_over_whammy_max\<close> lasts.
\<close>

lemma end_loop_crossing:
  assumes c: "conv_ok conv" and rw: "beat_rates_wf rates" and te: "on_timeline conv end_pos"
  shows "ranges_ok conv ws \<Longrightarrow> (case ws of [] \<Rightarrow> True | w # _ \<Rightarrow> beat cur < beat (wr_end w)) \<Longrightarrow>
     on_timeline conv cur \<Longrightarrow> beat cur \<le> beat end_pos \<Longrightarrow> 0 \<le> s \<Longrightarrow> s \<le> 1 \<Longrightarrow>
     \<exists>p. activation_end_loop conv rates ws cur end_pos s = Some p
        \<and> crossing_spec conv cur end_pos (\<lambda>x. whammy_max_loop rates ws cur x s) p"
proof (induction ws arbitrary: cur s)
  case Nil
  show ?case
    unfolding aep_loop_Nil
    by (rule final_drain_case [OF c Nil.prems(3) te Nil.prems(4,5,6)]) (simp add: max_loop_Nil)
next
  case (Cons w rest)
  note tc = Cons.prems(3) and ce = Cons.prems(4) and s0 = Cons.prems(5) and s1 = Cons.prems(6)
  have w: "beat (wr_start w) < beat (wr_end w)" "on_timeline conv (wr_start w)"
      "on_timeline conv (wr_end w)"
    using Cons.prems(1) by (simp_all add: ranges_ok_def)
  have rok: "ranges_ok conv rest" using Cons.prems(1) by (simp add: ranges_ok_def)
  have nxt: "\<forall>w' \<in> set rest. beat (wr_end w) < beat (wr_start w') \<and> beat (wr_start w') < beat (wr_end w')"
    using Cons.prems(1) by (auto simp: ranges_ok_def list_all_iff)
  have rhd: "(case rest of [] \<Rightarrow> True | w' # _ \<Rightarrow> beat (wr_end w) < beat (wr_end w'))"
    using nxt by (cases rest) auto
  have cw: "beat cur < beat (wr_end w)" using Cons.prems(2) by simp
  let ?M = "\<lambda>x. whammy_max_loop rates (w # rest) cur x s"
  show ?case
  proof (cases "beat (wr_start w) < beat end_pos")
    case False
    have "?M x = Some (drain cur x s)" if "beat x \<le> beat end_pos" for x
      using that False by (simp add: max_loop_Cons)
    then have "\<exists>p. final_end_point conv cur end_pos s = Some p \<and> crossing_spec conv cur end_pos ?M p"
      by (intro final_drain_case [OF c tc te ce s0 s1]) simp
    then show ?thesis using False by (simp add: aep_loop_Cons)
  next
    case True
    define sp1 where "sp1 = gap_sp w cur s"
    define st1 where "st1 = gap_start w cur"
    define b1 where "b1 = beat st1"
    let ?gap = "beat (wr_start w) > beat cur"
    have le1: "drain cur x s \<le> 1" if "on_timeline conv x" "beat cur \<le> beat x" for x
      using drain_mono [OF c tc that(1) that(2), of cur s] s1 by (simp add: drain_same)
    have lowM: "?M x = Some (drain cur x s)" if "beat x \<le> beat (wr_start w)" for x
      using that by (simp add: max_loop_Cons)
    show ?thesis
    proof (cases "?gap \<and> sp1 < 0")
      case B1: True
      from drain_end_point_props [OF c tc s0]
      obtain p where p: "drain_end_point conv cur s = Some p" "on_timeline conv p"
          "beat cur \<le> beat p" "drain cur p s = 0"
          "\<And>x. on_timeline conv x \<Longrightarrow> (0 \<le> drain cur x s \<longleftrightarrow> beat x \<le> beat p)"
        by blast
      have "drain cur (wr_start w) s < 0" using B1 by (auto simp: sp1_def gap_sp_def)
      then have pw: "beat p < beat (wr_start w)" using p(5) [OF w(2)] by simp
      have aep: "activation_end_loop conv rates (w # rest) cur end_pos s = Some p"
        using True B1 p(1) by (simp add: aep_loop_Cons sp1_def)
      have Mp: "?M p = Some 0" using lowM [of p] pw p(4) by simp
      have "\<exists>r. ?M x = Some r \<and> r \<le> 1 \<and> (0 \<le> r \<longleftrightarrow> beat x \<le> beat p)"
        if x: "on_timeline conv x \<and> beat cur \<le> beat x \<and> beat x \<le> beat end_pos" for x
      proof (cases "beat x \<le> beat (wr_start w)")
        case True
        then show ?thesis using lowM [OF True] le1 [of x] p(5) [of x] x by simp
      next
        case False
        then have "?M x = Some sp1" using B1 by (simp add: max_loop_Cons sp1_def)
        then show ?thesis using B1 False pw by simp
      qed
      then have "crossing_spec conv cur end_pos ?M p"
        unfolding crossing_spec_def using p(2,3) pw True Mp by auto
      then show ?thesis using aep by blast
    next
      case B2: False
      have ng: "(beat cur < beat (wr_start w) \<and> gap_sp w cur s < 0) = False"
        using B2 by (simp add: sp1_def)
      have st1: "on_timeline conv st1" "beat cur \<le> b1" "beat (wr_start w) \<le> b1"
          "b1 < beat (wr_end w)" "b1 \<le> beat end_pos"
        using tc w cw ce True by (auto simp: st1_def b1_def gap_start_def)
      have sp1_drain: "sp1 = drain cur st1 s"
        by (simp add: sp1_def st1_def gap_sp_def gap_start_def drain_same)
      have sp1: "0 \<le> sp1" "sp1 \<le> 1"
      proof -
        show "0 \<le> sp1" using B2 s0 by (auto simp: sp1_def gap_sp_def)
        show "sp1 \<le> 1" unfolding sp1_drain using le1 [OF st1(1)] st1(2) by (simp add: b1_def)
      qed
      have low: "\<exists>r. ?M x = Some r \<and> r \<le> 1 \<and> 0 \<le> r \<and> beat x \<le> b1"
        if x: "on_timeline conv x" "beat cur \<le> beat x" "beat x \<le> beat (wr_start w)" for x
      proof -
        have xb: "beat x \<le> b1" using x(3) st1(3) by simp
        then have "sp1 \<le> drain cur x s"
          unfolding sp1_drain using drain_mono [OF c x(1) st1(1)] by (simp add: b1_def)
        then show ?thesis using lowM [OF x(3)] le1 [OF x(1,2)] sp1(1) xb by simp
      qed
      have highM: "?M x =
          (case propagate_over_whammy_range rates b1 (min (beat x) (beat (wr_end w))) sp1 of
             None \<Rightarrow> None
           | Some sp2 \<Rightarrow> if sp2 < 0 \<or> beat x \<le> beat (wr_end w) then Some sp2
                         else whammy_max_loop rates rest (wr_end w) x sp2)"
        if "beat (wr_start w) < beat x" for x
        using that by (simp add: max_loop_Cons ng sp1_def st1_def b1_def)
      have b1x: "b1 \<le> min (beat x) (beat (wr_end w))"
        if "beat cur \<le> beat x" "beat (wr_start w) < beat x" for x
        using that st1(4) by (auto simp: b1_def st1_def gap_start_def)
      let ?E = "min (beat end_pos) (beat (wr_end w))"
      have b1E: "b1 \<le> ?E" using st1 by simp
      from propagate_range [OF rw sp1 b1E]
      obtain vE where vE: "propagate_over_whammy_range rates b1 ?E sp1 = Some vE"
          "vE = - 1 \<or> (0 \<le> vE \<and> vE \<le> 1)" by blast
      have aepM: "activation_end_loop conv rates (w # rest) cur end_pos s =
          (if vE < 0 then whammy_end_point conv rates b1 (beat end_pos) sp1
           else if beat end_pos \<le> beat (wr_end w) then Some end_pos
           else activation_end_loop conv rates rest (wr_end w) end_pos vE)"
        using True vE(1) unfolding sp1_def st1_def b1_def by (simp add: aep_loop_Cons ng)
      show ?thesis
      proof (cases "vE < 0")
        case B2a: True
        have "?E \<le> beat end_pos" by simp
        from propagate_crossing [OF rw sp1 b1E this vE(1) B2a]
        obtain cr where cr: "whammy_propagation_endpoint rates b1 (beat end_pos) sp1 = Some cr"
            "b1 \<le> cr" "cr < ?E" "propagate_over_whammy_range rates b1 cr sp1 = Some 0"
            "\<And>y. b1 \<le> y \<and> y \<le> ?E \<Longrightarrow>
               \<exists>r'. propagate_over_whammy_range rates b1 y sp1 = Some r' \<and> (0 \<le> r' \<longleftrightarrow> y \<le> cr)"
          by blast
        obtain m where m: "beats_to_measures conv cr = Some m" using c unfolding conv_ok_def by blast
        define p where "p = \<lparr>beat = cr, measure_pos = m\<rparr>"
        have tp: "on_timeline conv p" "beat p = cr" using m by (simp_all add: on_timeline_def p_def)
        have aep: "activation_end_loop conv rates (w # rest) cur end_pos s = Some p"
          using aepM B2a cr(1) m by (simp add: whammy_end_point_def p_def)
        have Mp: "?M p = Some 0"
        proof (cases "beat (wr_start w) < cr")
          case True
          have "min cr (beat (wr_end w)) = cr" using cr(3) by simp
          then show ?thesis using highM [of p] True tp(2) cr(4) cr(3) by simp
        next
          case False
          then have eq: "cr = b1" using st1(3) cr(2) by simp
          then have "beat p = beat st1" using tp(2) by (simp add: b1_def)
          then have ps: "p = st1" by (rule timeline_eq [OF c tp(1) st1(1)])
          have z: "sp1 = 0"
            using cr(4) propagate_over_whammy_range_same [OF rw sp1, of b1] eq by simp
          have "beat p \<le> beat (wr_start w)" using False tp(2) by simp
          then have "?M p = Some (drain cur p s)" by (rule lowM)
          then show ?thesis using sp1_drain z unfolding ps by simp
        qed
        have "\<exists>r. ?M x = Some r \<and> r \<le> 1 \<and> (0 \<le> r \<longleftrightarrow> beat x \<le> beat p)"
          if x: "on_timeline conv x \<and> beat cur \<le> beat x \<and> beat x \<le> beat end_pos" for x
        proof (cases "beat x \<le> beat (wr_start w)")
          case True
          then show ?thesis using low [of x] x cr(2) tp(2) by auto
        next
          case False
          then have xs: "beat (wr_start w) < beat x" by simp
          let ?y = "min (beat x) (beat (wr_end w))"
          have y: "b1 \<le> ?y \<and> ?y \<le> ?E" using b1x [of x] x xs by auto
          from cr(5) [OF y] obtain v where v: "propagate_over_whammy_range rates b1 ?y sp1 = Some v"
              "0 \<le> v \<longleftrightarrow> ?y \<le> cr" by blast
          have v1: "v \<le> 1" using propagate_range [OF rw sp1, of b1 ?y] y v(1) by auto
          show ?thesis
          proof (cases "beat x \<le> beat (wr_end w)")
            case True
            then show ?thesis using highM [OF xs] v v1 tp(2) by simp
          next
            case f: False
            then have "?y = ?E" using x by auto
            then have "v = vE" using v(1) vE(1) by simp
            then have "?M x = Some v" using highM [OF xs] v(1) B2a by simp
            moreover have "\<not> beat x \<le> cr" using f cr(3) by simp
            moreover have "\<not> 0 \<le> v" using \<open>v = vE\<close> B2a by simp
            ultimately show ?thesis using v1 tp(2) by simp
          qed
        qed
        then have "crossing_spec conv cur end_pos ?M p"
          unfolding crossing_spec_def using tp st1(2) cr(2,3) Mp by auto
        then show ?thesis using aep by blast
      next
        case B2b: False
        then have vE01: "0 \<le> vE" "vE \<le> 1" using vE(2) by auto
        have within: "\<exists>r. ?M x = Some r \<and> r \<le> 1 \<and> 0 \<le> r"
          if x: "on_timeline conv x" "beat cur \<le> beat x" "beat x \<le> beat end_pos"
              "beat (wr_start w) < beat x" "beat x \<le> beat (wr_end w)" for x
        proof -
          have m: "min (beat x) (beat (wr_end w)) = beat x" using x(5) by simp
          have xE: "beat x \<le> ?E" using x by simp
          have bx: "b1 \<le> beat x" using b1x [OF x(2,4)] m by simp
          from propagate_prefix_nonneg [OF rw sp1 bx xE vE(1) vE01(1)]
          obtain v where v: "propagate_over_whammy_range rates b1 (beat x) sp1 = Some v" "0 \<le> v"
            by blast
          have "v \<le> 1" using propagate_range [OF rw sp1 bx] v by auto
          then show ?thesis using highM [OF x(4)] m v x(5) by simp
        qed
        show ?thesis
        proof (cases "beat end_pos \<le> beat (wr_end w)")
          case True
          have aep: "activation_end_loop conv rates (w # rest) cur end_pos s = Some end_pos"
            using aepM B2b True by simp
          have "\<exists>r. ?M x = Some r \<and> r \<le> 1 \<and> (0 \<le> r \<longleftrightarrow> beat x \<le> beat end_pos)"
            if x: "on_timeline conv x \<and> beat cur \<le> beat x \<and> beat x \<le> beat end_pos" for x
          proof (cases "beat x \<le> beat (wr_start w)")
            case True
            then show ?thesis using low [of x] x by auto
          next
            case False
            then show ?thesis using within [of x] x True by auto
          qed
          then have "crossing_spec conv cur end_pos ?M end_pos"
            unfolding crossing_spec_def using te ce by auto
          then show ?thesis using aep by blast
        next
          case False
          then have we: "beat (wr_end w) \<le> beat end_pos" and E: "?E = beat (wr_end w)" by simp_all
          have aep: "activation_end_loop conv rates (w # rest) cur end_pos s =
              activation_end_loop conv rates rest (wr_end w) end_pos vE"
            using aepM B2b False by simp
          from Cons.IH [OF rok rhd w(3) we vE01]
          obtain p where p: "activation_end_loop conv rates rest (wr_end w) end_pos vE = Some p"
              "crossing_spec conv (wr_end w) end_pos (\<lambda>x. whammy_max_loop rates rest (wr_end w) x vE) p"
            by blast
          have pp: "on_timeline conv p" "beat (wr_end w) \<le> beat p" "beat p \<le> beat end_pos"
              "p = end_pos \<or> whammy_max_loop rates rest (wr_end w) p vE = Some 0"
            using p(2) unfolding crossing_spec_def by simp_all
          have pall: "\<exists>r. whammy_max_loop rates rest (wr_end w) x vE = Some r \<and> r \<le> 1
                \<and> (0 \<le> r \<longleftrightarrow> beat x \<le> beat p)"
            if "on_timeline conv x" "beat (wr_end w) \<le> beat x" "beat x \<le> beat end_pos" for x
            using p(2) that unfolding crossing_spec_def by simp
          have beyond: "?M x = whammy_max_loop rates rest (wr_end w) x vE"
            if "beat (wr_end w) < beat x" "beat x \<le> beat end_pos" for x
          proof -
            have "min (beat x) (beat (wr_end w)) = ?E" using that E by simp
            moreover have "beat (wr_start w) < beat x" using that w(1) by simp
            ultimately show ?thesis using highM [of x] vE(1) B2b that(1) by simp
          qed
          have atend: "?M (wr_end w) = Some vE"
          proof -
            have "min (beat (wr_end w)) (beat (wr_end w)) = ?E" using E by simp
            then show ?thesis using highM [of "wr_end w"] w(1) vE(1) by simp
          qed
          have same: "whammy_max_loop rates rest (wr_end w) (wr_end w) vE = Some vE"
            using nxt by (cases rest) (auto simp: max_loop_Cons max_loop_Nil drain_same)
          have Mp: "p = end_pos \<or> ?M p = Some 0"
          proof (cases "p = end_pos")
            case True
            then show ?thesis by simp
          next
            case False
            then have z: "whammy_max_loop rates rest (wr_end w) p vE = Some 0" using pp(4) by simp
            show ?thesis
            proof (cases "beat (wr_end w) < beat p")
              case True
              then show ?thesis using beyond [OF True pp(3)] z by simp
            next
              case False
              then have "beat p = beat (wr_end w)" using pp(2) by simp
              then have pw: "p = wr_end w" by (rule timeline_eq [OF c pp(1) w(3)])
              have "vE = 0" using z same unfolding pw by simp
              then show ?thesis using atend unfolding pw by simp
            qed
          qed
          have "\<exists>r. ?M x = Some r \<and> r \<le> 1 \<and> (0 \<le> r \<longleftrightarrow> beat x \<le> beat p)"
            if x: "on_timeline conv x \<and> beat cur \<le> beat x \<and> beat x \<le> beat end_pos" for x
          proof (cases "beat x \<le> beat (wr_start w)")
            case True
            then show ?thesis using low [of x] x st1(4) pp(2) by auto
          next
            case f1: False
            show ?thesis
            proof (cases "beat x \<le> beat (wr_end w)")
              case True
              then show ?thesis using within [of x] x f1 pp(2) by auto
            next
              case False
              then show ?thesis using beyond [of x] pall [of x] x by simp
            qed
          qed
          then have "crossing_spec conv cur end_pos ?M p"
            unfolding crossing_spec_def using pp(1,3) Mp cw pp(2) by auto
          then show ?thesis using aep p(1) by simp
        qed
      qed
    qed
  qed
qed

lemma ranges_ok_drop: "ranges_ok conv ws \<Longrightarrow> ranges_ok conv (drop n ws)"
  unfolding ranges_ok_def list_all_iff
  by (metis in_set_dropD sorted_wrt_drop)

lemma ranges_suffix_hd:
  "(case drop (lower_bound (\<lambda>x. beat (wr_end x) \<le> beat start) ws) ws of
      [] \<Rightarrow> True | w # _ \<Rightarrow> beat start < beat (wr_end w))"
proof (cases "drop (lower_bound (\<lambda>x. beat (wr_end x) \<le> beat start) ws) ws")
  case Nil
  then show ?thesis by simp
next
  case (Cons w rest)
  then show ?thesis using drop_lower_bound_Cons [OF Cons] by simp
qed

lemma activation_end_point_crossing:
  assumes "sp_data_wf d" "on_timeline (m_converter d) start" "on_timeline (m_converter d) end_pos"
    "beat start \<le> beat end_pos" "0 \<le> sp" "sp \<le> 1"
  shows "\<exists>p. activation_end_point d start end_pos sp = Some p
           \<and> crossing_spec (m_converter d) start end_pos
                (\<lambda>x. propagate_sp_over_whammy_max d start x sp) p"
proof -
  let ?ws = "drop (lower_bound (\<lambda>x. beat (wr_end x) \<le> beat start) (m_whammy_ranges d)) (m_whammy_ranges d)"
  have c: "conv_ok (m_converter d)" and r: "beat_rates_wf (m_beat_rates d)"
    and w: "ranges_ok (m_converter d) ?ws"
    using assms(1) by (simp_all add: sp_data_wf_def ranges_ok_drop)
  from end_loop_crossing [OF c r assms(3) w ranges_suffix_hd assms(2) assms(4) assms(5) assms(6)]
  show ?thesis
    by (simp add: activation_end_point_def propagate_sp_over_whammy_max_def Let_def)
qed

lemma gap_value:
  assumes c: "conv_ok conv" and tc: "on_timeline conv cur" and tq: "on_timeline conv q"
    and s0: "0 \<le> s" and neg: "drain cur q s < 0" and p: "drain_end_point conv cur s = Some p"
  shows "beat p < beat q \<and> drain p q 0 = drain cur q s"
proof -
  from drain_end_point_props [OF c tc s0] p
  have pp: "on_timeline conv p" "measure_pos p = measure_pos cur + s * 8"
      "\<And>x. on_timeline conv x \<Longrightarrow> (0 \<le> drain cur x s \<longleftrightarrow> beat x \<le> beat p)"
    by auto
  have "beat p < beat q" using pp(3) [OF tq] neg by simp
  moreover have "drain p q 0 = drain cur q s" by (simp add: drain_def pp(2) MEASURES_PER_BAR_def field_simps)
  ultimately show ?thesis by simp
qed

lemma not_inside_before:
  assumes "ranges_ok conv (w # rest)" "b < beat (wr_start w)"
  shows "\<not> inside_whammy_range (w # rest) b"
proof -
  have "\<forall>w' \<in> set rest. beat (wr_start w) < beat (wr_start w')"
    using assms(1) by (auto simp: ranges_ok_def list_all_iff)
  then show ?thesis using assms(2) by (auto simp: inside_whammy_range_def list_ex_iff)
qed

lemma end_loop_value:
  assumes c: "conv_ok conv" and rw: "beat_rates_wf rates" and te: "on_timeline conv end_pos"
  shows "ranges_ok conv ws \<Longrightarrow> (case ws of [] \<Rightarrow> True | w # _ \<Rightarrow> beat cur < beat (wr_end w)) \<Longrightarrow>
     on_timeline conv cur \<Longrightarrow> beat cur \<le> beat end_pos \<Longrightarrow> 0 \<le> s \<Longrightarrow> s \<le> 1 \<Longrightarrow>
     \<exists>p r. activation_end_loop conv rates ws cur end_pos s = Some p
        \<and> whammy_max_loop rates ws cur end_pos s = Some r
        \<and> (r < 0 \<longrightarrow> (if inside_whammy_range ws (beat p) then r = - 1
                        else r = drain p (gap_end ws p end_pos) 0))"
proof (induction ws arbitrary: cur s)
  case Nil
  note tc = Nil.prems(3) and s0 = Nil.prems(5)
  show ?case
  proof (cases "drain cur end_pos s < 0")
    case True
    obtain p where p: "drain_end_point conv cur s = Some p"
      using drain_end_point_props [OF c tc s0] by blast
    from gap_value [OF c tc te s0 True p]
    show ?thesis using True p
      by (simp add: aep_loop_Nil final_end_point_def max_loop_Nil inside_whammy_range_def gap_end_def)
  next
    case False
    then show ?thesis by (simp add: aep_loop_Nil final_end_point_def max_loop_Nil)
  qed
next
  case (Cons w rest)
  note tc = Cons.prems(3) and ce = Cons.prems(4) and s0 = Cons.prems(5) and s1 = Cons.prems(6)
  have w: "beat (wr_start w) < beat (wr_end w)" "on_timeline conv (wr_start w)"
      "on_timeline conv (wr_end w)"
    using Cons.prems(1) by (simp_all add: ranges_ok_def)
  have rok: "ranges_ok conv rest" using Cons.prems(1) by (simp add: ranges_ok_def)
  have nxt: "\<forall>w' \<in> set rest. beat (wr_end w) < beat (wr_start w') \<and> beat (wr_start w') < beat (wr_end w')"
    using Cons.prems(1) by (auto simp: ranges_ok_def list_all_iff)
  have rhd: "(case rest of [] \<Rightarrow> True | w' # _ \<Rightarrow> beat (wr_end w) < beat (wr_end w'))"
    using nxt by (cases rest) auto
  have cw: "beat cur < beat (wr_end w)" using Cons.prems(2) by simp
  show ?case
  proof (cases "beat (wr_start w) < beat end_pos")
    case False
    have mx: "whammy_max_loop rates (w # rest) cur end_pos s = Some (drain cur end_pos s)"
      using False by (simp add: max_loop_Cons)
    have ae: "activation_end_loop conv rates (w # rest) cur end_pos s = final_end_point conv cur end_pos s"
      using False by (simp add: aep_loop_Cons)
    show ?thesis
    proof (cases "drain cur end_pos s < 0")
      case True
      obtain p where p: "drain_end_point conv cur s = Some p"
        using drain_end_point_props [OF c tc s0] by blast
      from gap_value [OF c tc te s0 True p]
      have v: "beat p < beat end_pos" "drain p end_pos 0 = drain cur end_pos s" by simp_all
      have pw: "beat p < beat (wr_start w)" using v(1) False by simp
      have "\<not> inside_whammy_range (w # rest) (beat p)"
        by (rule not_inside_before [OF Cons.prems(1) pw])
      moreover have "gap_end (w # rest) p end_pos = end_pos" using pw False by (simp add: gap_end_def)
      ultimately show ?thesis using mx ae True p v(2) by (simp add: final_end_point_def)
    next
      case f: False
      then show ?thesis using mx ae by (simp add: final_end_point_def)
    qed
  next
    case True
    define sp1 where "sp1 = gap_sp w cur s"
    define st1 where "st1 = gap_start w cur"
    define b1 where "b1 = beat st1"
    let ?gap = "beat (wr_start w) > beat cur"
    show ?thesis
    proof (cases "?gap \<and> sp1 < 0")
      case B1: True
      then have neg: "drain cur (wr_start w) s < 0" by (auto simp: sp1_def gap_sp_def)
      obtain p where p: "drain_end_point conv cur s = Some p"
        using drain_end_point_props [OF c tc s0] by blast
      from gap_value [OF c tc w(2) s0 neg p]
      have v: "beat p < beat (wr_start w)" "drain p (wr_start w) 0 = drain cur (wr_start w) s" by simp_all
      have "\<not> inside_whammy_range (w # rest) (beat p)"
        by (rule not_inside_before [OF Cons.prems(1) v(1)])
      moreover have "gap_end (w # rest) p end_pos = wr_start w" using v(1) True by (simp add: gap_end_def)
      moreover have "activation_end_loop conv rates (w # rest) cur end_pos s = Some p"
        using True B1 p by (simp add: aep_loop_Cons sp1_def)
      moreover have "whammy_max_loop rates (w # rest) cur end_pos s = Some (drain cur (wr_start w) s)"
        using True B1 by (auto simp: max_loop_Cons sp1_def gap_sp_def)
      ultimately show ?thesis using v(2) by simp
    next
      case B2: False
      have ng: "(beat cur < beat (wr_start w) \<and> gap_sp w cur s < 0) = False"
        using B2 by (simp add: sp1_def)
      have st1: "on_timeline conv st1" "beat cur \<le> b1" "beat (wr_start w) \<le> b1"
          "b1 < beat (wr_end w)" "b1 \<le> beat end_pos"
        using tc w cw ce True by (auto simp: st1_def b1_def gap_start_def)
      have sp1_drain: "sp1 = drain cur st1 s"
        by (simp add: sp1_def st1_def gap_sp_def gap_start_def drain_same)
      have sp1: "0 \<le> sp1" "sp1 \<le> 1"
      proof -
        show "0 \<le> sp1" using B2 s0 by (auto simp: sp1_def gap_sp_def)
        have "drain cur st1 s \<le> drain cur cur s"
          using drain_mono [OF c tc st1(1)] st1(2) by (simp add: b1_def)
        then show "sp1 \<le> 1" unfolding sp1_drain using s1 by (simp add: drain_same)
      qed
      let ?E = "min (beat end_pos) (beat (wr_end w))"
      have b1E: "b1 \<le> ?E" using st1 by simp
      from propagate_range [OF rw sp1 b1E]
      obtain vE where vE: "propagate_over_whammy_range rates b1 ?E sp1 = Some vE"
          "vE = - 1 \<or> (0 \<le> vE \<and> vE \<le> 1)" by blast
      have aepM: "activation_end_loop conv rates (w # rest) cur end_pos s =
          (if vE < 0 then whammy_end_point conv rates b1 (beat end_pos) sp1
           else if beat end_pos \<le> beat (wr_end w) then Some end_pos
           else activation_end_loop conv rates rest (wr_end w) end_pos vE)"
        using True vE(1) unfolding sp1_def st1_def b1_def by (simp add: aep_loop_Cons ng)
      have maxM: "whammy_max_loop rates (w # rest) cur end_pos s =
          (if vE < 0 \<or> beat end_pos \<le> beat (wr_end w) then Some vE
           else whammy_max_loop rates rest (wr_end w) end_pos vE)"
        using True vE(1) unfolding sp1_def st1_def b1_def by (simp add: max_loop_Cons ng)
      show ?thesis
      proof (cases "vE < 0")
        case B2a: True
        then have v1: "vE = - 1" using vE(2) by auto
        have "?E \<le> beat end_pos" by simp
        from propagate_crossing [OF rw sp1 b1E this vE(1) B2a]
        obtain cr where cr: "whammy_propagation_endpoint rates b1 (beat end_pos) sp1 = Some cr"
            "b1 \<le> cr" "cr < ?E"
          by blast
        obtain m where m: "beats_to_measures conv cr = Some m" using c unfolding conv_ok_def by blast
        have aep: "activation_end_loop conv rates (w # rest) cur end_pos s =
            Some \<lparr>beat = cr, measure_pos = m\<rparr>"
          using aepM B2a cr(1) m by (simp add: whammy_end_point_def)
        have "inside_whammy_range (w # rest) cr"
          using st1(3) cr(2,3) by (simp add: inside_whammy_range_def)
        then show ?thesis using aep maxM B2a v1 by simp
      next
        case B2b: False
        then have vE01: "0 \<le> vE" "vE \<le> 1" using vE(2) by auto
        show ?thesis
        proof (cases "beat end_pos \<le> beat (wr_end w)")
          case True
          then show ?thesis using aepM maxM B2b by simp
        next
          case False
          then have we: "beat (wr_end w) \<le> beat end_pos" by simp
          from Cons.IH [OF rok rhd w(3) we vE01]
          obtain p r where pr: "activation_end_loop conv rates rest (wr_end w) end_pos vE = Some p"
              "whammy_max_loop rates rest (wr_end w) end_pos vE = Some r"
              "r < 0 \<longrightarrow> (if inside_whammy_range rest (beat p) then r = - 1
                        else r = drain p (gap_end rest p end_pos) 0)"
            by blast
          from end_loop_crossing [OF c rw te rok rhd w(3) we vE01] pr(1)
          have pw: "beat (wr_end w) \<le> beat p" by (auto simp: crossing_spec_def)
          have "inside_whammy_range (w # rest) (beat p) = inside_whammy_range rest (beat p)"
            using pw by (simp add: inside_whammy_range_def)
          moreover have "gap_end (w # rest) p end_pos = gap_end rest p end_pos"
            using pw w(1) by (simp add: gap_end_def)
          ultimately show ?thesis using aepM maxM B2b False pr by simp
        qed
      qed
    qed
  qed
qed

lemma find_append_skip: "\<forall>x \<in> set xs. \<not> Q x \<Longrightarrow> find Q (xs @ ys) = find Q ys"
  by (induction xs) auto

section \<open>Constructed engines are well formed\<close>

text \<open>
  The two conversions are instances of \<open>interp\<close>. Over a sorted table with positive outer
  slopes it is total, strictly between the neighbouring entries, monotone, and inverted by the
  same function on the table with its columns swapped.
\<close>

lemma lower_bound_map: "lower_bound P (map f xs) = lower_bound (P \<circ> f) xs"
  by (simp add: lower_bound_def takeWhile_map)

lemma interp_of_map:
  assumes "\<And>s. fst (f s) = k s" "\<And>s. snd (f s) = v s"
  shows "interp (map f xs) a z x =
     (let i = lower_bound (\<lambda>s. k s < x) xs
      in if i = length xs then
           (if xs = [] then None else Some (v (last xs) + (x - k (last xs)) * z))
         else if i = 0 then Some (v (xs ! i) - (k (xs ! i) - x) * a)
         else Some (v (xs ! (i - 1))
                    + (v (xs ! i) - v (xs ! (i - 1)))
                      * ((x - k (xs ! (i - 1))) / (k (xs ! i) - k (xs ! (i - 1))))))"
proof -
  let ?i = "lower_bound (\<lambda>s. k s < x) xs"
  have lb: "lower_bound (\<lambda>p. fst p < x) (map f xs) = ?i"
    by (simp add: lower_bound_map comp_def assms)
  show ?thesis
  proof (cases "?i = length xs")
    case True
    then show ?thesis using lb by (cases "xs = []") (simp_all add: interp_def Let_def last_map assms)
  next
    case False
    then have il: "?i < length xs" using lower_bound_le [of _ xs] by (simp add: le_neq_implies_less)
    then have "?i - 1 < length xs" "0 < length xs" by linarith+
    then show ?thesis using False il lb by (auto simp: interp_def Let_def assms)
  qed
qed

lemma beats_to_measures_interp:
  "beats_to_measures conv b =
     interp (map (\<lambda>s. (mt_beat s, mt_measure s)) (m_measure_timestamps conv))
       (1 / DEFAULT_BEAT_RATE) (1 / m_last_beat_rate conv) b"
  by (subst interp_of_map [where k = mt_beat and v = mt_measure])
     (simp_all add: beats_to_measures_def to_measure_def Let_def)

lemma measures_to_beats_interp:
  "measures_to_beats conv m =
     interp (map (\<lambda>s. (mt_measure s, mt_beat s)) (m_measure_timestamps conv))
       DEFAULT_BEAT_RATE (m_last_beat_rate conv) m"
  by (subst interp_of_map [where k = mt_measure and v = mt_beat])
     (simp_all add: measures_to_beats_def to_beat_def Let_def)

lemma lower_bound_unique:
  assumes "\<And>j. j < k \<Longrightarrow> P (xs ! j)" "k \<le> length xs" "k < length xs \<Longrightarrow> \<not> P (xs ! k)"
  shows "lower_bound P xs = k"
proof (rule ccontr)
  assume ne: "lower_bound P xs \<noteq> k"
  show False
  proof (cases "lower_bound P xs < k")
    case True
    then have "lower_bound P xs < length xs" using assms(2) by simp
    then have "\<not> P (xs ! lower_bound P xs)" by (rule lower_bound_at)
    then show False using assms(1) [OF True] by simp
  next
    case False
    then have lt: "k < lower_bound P xs" using ne by simp
    then have "k < length xs" using lower_bound_le [of P xs] by simp
    then show False using assms(3) lower_bound_before [OF lt] by simp
  qed
qed

lemma lower_bound_mono:
  assumes "\<And>x. P x \<Longrightarrow> Q x"
  shows "lower_bound P xs \<le> lower_bound Q xs"
proof (rule ccontr)
  assume "\<not> lower_bound P xs \<le> lower_bound Q xs"
  then have lt: "lower_bound Q xs < lower_bound P xs" by simp
  then have "lower_bound Q xs < length xs" using lower_bound_le [of P xs] by simp
  then have "\<not> Q (xs ! lower_bound Q xs)" by (rule lower_bound_at)
  then show False using lower_bound_before [OF lt] assms by blast
qed

lemma tab_ok_nth:
  assumes "tab_ok tab" "i \<le> j" "j < length tab"
  shows "tab_le (tab ! i) (tab ! j)"
proof (cases "i = j")
  case True
  then show ?thesis by (simp add: tab_le_def)
next
  case False
  then have "i < j" using assms(2) by simp
  then show ?thesis using assms(1,3) sorted_wrt_nth_less unfolding tab_ok_def by blast
qed

lemma interp_frac:
  fixes x x0 x1 y0 y1 :: real
  assumes "x0 < x" "x \<le> x1" "y0 < y1"
  shows "y0 < y0 + (y1 - y0) * ((x - x0) / (x1 - x0))"
    and "y0 + (y1 - y0) * ((x - x0) / (x1 - x0)) \<le> y1"
proof -
  let ?t = "(x - x0) / (x1 - x0)"
  have d: "0 < x1 - x0" using assms by simp
  have t0: "0 < ?t" using assms(1) d by simp
  have t1: "?t \<le> 1" using assms(2) d by (simp add: divide_le_eq)
  have "0 < y1 - y0" using assms(3) by simp
  then have "0 < (y1 - y0) * ?t" using t0 by (rule mult_pos_pos)
  then show "y0 < y0 + (y1 - y0) * ?t" by linarith
  have "0 \<le> y1 - y0" using assms(3) by simp
  with t1 have "(y1 - y0) * ?t \<le> y1 - y0" by (rule mult_left_le)
  then show "y0 + (y1 - y0) * ?t \<le> y1" by linarith
qed

lemma interp_bounds:
  assumes ok: "tab_ok tab" and a: "0 < a" and z: "0 < z"
  shows "\<exists>y. interp tab a z x = Some y
           \<and> (0 < lower_bound (\<lambda>p. fst p < x) tab \<longrightarrow>
                 snd (tab ! (lower_bound (\<lambda>p. fst p < x) tab - 1)) < y)
           \<and> (lower_bound (\<lambda>p. fst p < x) tab < length tab \<longrightarrow>
                 y \<le> snd (tab ! lower_bound (\<lambda>p. fst p < x) tab))"
proof -
  let ?P = "\<lambda>p. fst p < x"
  let ?i = "lower_bound ?P tab"
  have ne: "tab \<noteq> []" using ok by (simp add: tab_ok_def)
  show ?thesis
  proof (cases "?i = length tab")
    case True
    have "0 < length tab" using ne by simp
    then have l: "length tab - 1 < ?i" using True by simp
    have "?P (tab ! (length tab - 1))" by (rule lower_bound_before [OF l])
    then have "fst (last tab) < x" using ne by (simp add: last_conv_nth)
    then have "0 < (x - fst (last tab)) * z" using z by simp
    then have "snd (last tab) < snd (last tab) + (x - fst (last tab)) * z" by simp
    then show ?thesis using True ne by (simp add: interp_def Let_def last_conv_nth)
  next
    case False
    then have il: "?i < length tab" using lower_bound_le [of ?P tab] by simp
    have ge: "x \<le> fst (tab ! ?i)" using lower_bound_at [OF il] by simp
    show ?thesis
    proof (cases "?i = 0")
      case True
      have "0 \<le> (fst (tab ! 0) - x) * a" using ge a True by simp
      then show ?thesis using True False by (simp add: interp_def Let_def)
    next
      case nz: False
      then have lt: "?i - 1 < ?i" by simp
      have x0: "fst (tab ! (?i - 1)) < x" using lower_bound_before [OF lt] by simp
      have "tab_le (tab ! (?i - 1)) (tab ! ?i)" using tab_ok_nth [OF ok _ il, of "?i - 1"] by simp
      moreover have "fst (tab ! (?i - 1)) < fst (tab ! ?i)" using x0 ge by simp
      ultimately have y01: "snd (tab ! (?i - 1)) < snd (tab ! ?i)" by (auto simp: tab_le_def)
      from interp_frac [OF x0 ge y01]
      show ?thesis using False nz il by (simp add: interp_def Let_def)
    qed
  qed
qed

lemma tab_le_swap: "tab_le (prod.swap p) (prod.swap q) = tab_le p q"
  by (auto simp: tab_le_def)

lemma tab_ok_swap: "tab_ok tab \<Longrightarrow> tab_ok (map prod.swap tab)"
  by (simp add: tab_ok_def sorted_wrt_map tab_le_swap)

lemma interp_index_swap:
  assumes ok: "tab_ok tab" and a: "0 < a" and z: "0 < z" and y: "interp tab a z x = Some y"
  shows "lower_bound (\<lambda>p. snd p < y) tab = lower_bound (\<lambda>p. fst p < x) tab"
proof -
  let ?i = "lower_bound (\<lambda>p. fst p < x) tab"
  from interp_bounds [OF ok a z, of x] y
  have lo: "0 < ?i \<longrightarrow> snd (tab ! (?i - 1)) < y"
    and hi: "?i < length tab \<longrightarrow> y \<le> snd (tab ! ?i)" by auto
  show ?thesis
  proof (rule lower_bound_unique)
    fix j assume j: "j < ?i"
    have il: "?i \<le> length tab" by (rule lower_bound_le)
    have "tab_le (tab ! j) (tab ! (?i - 1))"
      using tab_ok_nth [OF ok, of j "?i - 1"] j il by simp
    then have "snd (tab ! j) \<le> snd (tab ! (?i - 1))" by (simp add: tab_le_def)
    then show "snd (tab ! j) < y" using lo j by simp
  next
    show "?i \<le> length tab" by (rule lower_bound_le)
  next
    assume "?i < length tab"
    then show "\<not> snd (tab ! ?i) < y" using hi by simp
  qed
qed

lemma interp_inverse:
  assumes ok: "tab_ok tab" and a: "0 < a" and z: "0 < z" and y: "interp tab a z x = Some y"
  shows "interp (map prod.swap tab) (1 / a) (1 / z) y = Some x"
proof -
  let ?i = "lower_bound (\<lambda>p. fst p < x) tab"
  have ne: "tab \<noteq> []" using ok by (simp add: tab_ok_def)
  have idx: "lower_bound (\<lambda>s. snd s < y) tab = ?i" by (rule interp_index_swap [OF ok a z y])
  have sw: "interp (map prod.swap tab) (1 / a) (1 / z) y =
     (let i = lower_bound (\<lambda>s. snd s < y) tab
      in if i = length tab then
           (if tab = [] then None else Some (fst (last tab) + (y - snd (last tab)) * (1 / z)))
         else if i = 0 then Some (fst (tab ! i) - (snd (tab ! i) - y) * (1 / a))
         else Some (fst (tab ! (i - 1))
                    + (fst (tab ! i) - fst (tab ! (i - 1)))
                      * ((y - snd (tab ! (i - 1))) / (snd (tab ! i) - snd (tab ! (i - 1))))))"
    by (rule interp_of_map) simp_all
  show ?thesis
  proof (cases "?i = length tab")
    case True
    then have "y = snd (last tab) + (x - fst (last tab)) * z"
      using y ne by (simp add: interp_def Let_def)
    then have "fst (last tab) + (y - snd (last tab)) * (1 / z) = x" using z by simp
    then show ?thesis using True ne unfolding sw idx by (simp add: Let_def)
  next
    case False
    then have il: "?i < length tab" using lower_bound_le [of _ tab] by (simp add: le_neq_implies_less)
    have ge: "x \<le> fst (tab ! ?i)" using lower_bound_at [OF il] by simp
    show ?thesis
    proof (cases "?i = 0")
      case True
      then have "y = snd (tab ! 0) - (fst (tab ! 0) - x) * a"
        using y False by (simp add: interp_def Let_def)
      then have "fst (tab ! 0) - (snd (tab ! 0) - y) * (1 / a) = x" using a by simp
      then show ?thesis using True False unfolding sw idx by (simp add: Let_def)
    next
      case nz: False
      let ?x0 = "fst (tab ! (?i - 1))" and ?x1 = "fst (tab ! ?i)"
      let ?y0 = "snd (tab ! (?i - 1))" and ?y1 = "snd (tab ! ?i)"
      have lt: "?i - 1 < ?i" using nz by simp
      have x0: "?x0 < x" using lower_bound_before [OF lt] by simp
      have "tab_le (tab ! (?i - 1)) (tab ! ?i)" using tab_ok_nth [OF ok _ il, of "?i - 1"] by simp
      moreover have x01: "?x0 < ?x1" using x0 ge by simp
      ultimately have y01: "?y0 < ?y1" by (auto simp: tab_le_def)
      have yv: "y = ?y0 + (?y1 - ?y0) * ((x - ?x0) / (?x1 - ?x0))"
        using y False nz by (simp add: interp_def Let_def)
      have "(y - ?y0) / (?y1 - ?y0) = (x - ?x0) / (?x1 - ?x0)"
        using y01 unfolding yv by simp
      then have "?x0 + (?x1 - ?x0) * ((y - ?y0) / (?y1 - ?y0)) = x"
        using x01 by simp
      then show ?thesis using False nz unfolding sw idx by (simp add: Let_def)
    qed
  qed
qed

lemma interp_total:
  assumes "tab \<noteq> []"
  shows "\<exists>y. interp tab a z x = Some y"
  using assms by (simp add: interp_def Let_def)

lemma interp_mono:
  assumes ok: "tab_ok tab" and a: "0 < a" and z: "0 < z"
    and y1: "interp tab a z x1 = Some y1" and y2: "interp tab a z x2 = Some y2"
    and le: "x1 \<le> x2"
  shows "y1 \<le> y2"
proof -
  let ?i1 = "lower_bound (\<lambda>p. fst p < x1) tab"
  let ?i2 = "lower_bound (\<lambda>p. fst p < x2) tab"
  have ne: "tab \<noteq> []" using ok by (simp add: tab_ok_def)
  have i12: "?i1 \<le> ?i2" using le by (intro lower_bound_mono) simp
  have il: "?i2 \<le> length tab" by (rule lower_bound_le)
  from interp_bounds [OF ok a z, of x1] y1
  have hi1: "?i1 < length tab \<longrightarrow> y1 \<le> snd (tab ! ?i1)" by auto
  from interp_bounds [OF ok a z, of x2] y2
  have lo2: "0 < ?i2 \<longrightarrow> snd (tab ! (?i2 - 1)) < y2" by auto
  show ?thesis
  proof (cases "?i1 = ?i2")
    case False
    then have lt: "?i1 < ?i2" using i12 by simp
    then have "tab_le (tab ! ?i1) (tab ! (?i2 - 1))"
      using tab_ok_nth [OF ok, of ?i1 "?i2 - 1"] il by simp
    then have "snd (tab ! ?i1) \<le> snd (tab ! (?i2 - 1))" by (simp add: tab_le_def)
    then show ?thesis using hi1 lo2 lt il by simp
  next
    case eq: True
    show ?thesis
    proof (cases "?i2 = length tab")
      case True
      have "(x1 - fst (last tab)) * z \<le> (x2 - fst (last tab)) * z"
        using le z by (simp add: mult_right_mono)
      then show ?thesis using y1 y2 eq True ne by (simp add: interp_def Let_def)
    next
      case False
      then have il2: "?i2 < length tab" using il by simp
      show ?thesis
      proof (cases "?i2 = 0")
        case True
        have "(fst (tab ! 0) - x2) * a \<le> (fst (tab ! 0) - x1) * a"
          using le a by (simp add: mult_right_mono)
        then show ?thesis using y1 y2 eq True False by (simp add: interp_def Let_def)
      next
        case nz: False
        let ?x0 = "fst (tab ! (?i2 - 1))" and ?x1 = "fst (tab ! ?i2)"
        let ?y0 = "snd (tab ! (?i2 - 1))" and ?y1 = "snd (tab ! ?i2)"
        have lt: "?i2 - 1 < ?i2" using nz by simp
        have lt1: "?i2 - 1 < ?i1" using nz eq by simp
        have x0: "?x0 < x1" using lower_bound_before [OF lt1] by simp
        have ge: "x2 \<le> ?x1" using lower_bound_at [OF il2] by simp
        have "tab_le (tab ! (?i2 - 1)) (tab ! ?i2)" using tab_ok_nth [OF ok _ il2, of "?i2 - 1"] by simp
        then have y01: "0 \<le> ?y1 - ?y0" by (simp add: tab_le_def)
        have x01: "0 < ?x1 - ?x0" using x0 ge le by simp
        have "(x1 - ?x0) / (?x1 - ?x0) \<le> (x2 - ?x0) / (?x1 - ?x0)"
          using le x01 by (simp add: divide_right_mono)
        then have "(?y1 - ?y0) * ((x1 - ?x0) / (?x1 - ?x0)) \<le> (?y1 - ?y0) * ((x2 - ?x0) / (?x1 - ?x0))"
          using y01 by (rule mult_left_mono)
        moreover have "y1 = ?y0 + (?y1 - ?y0) * ((x1 - ?x0) / (?x1 - ?x0))"
          using y1 eq False nz by (simp add: interp_def Let_def)
        moreover have "y2 = ?y0 + (?y1 - ?y0) * ((x2 - ?x0) / (?x1 - ?x0))"
          using y2 False nz by (simp add: interp_def Let_def)
        ultimately show ?thesis by simp
      qed
    qed
  qed
qed

lemma beat_table_ok:
  assumes "sorted_wrt stamp_le stamps" "stamps \<noteq> []"
  shows "tab_ok (map (\<lambda>s. (mt_beat s, mt_measure s)) stamps)"
proof -
  have "\<And>x y. tab_le (mt_beat x, mt_measure x) (mt_beat y, mt_measure y) = stamp_le x y"
    by (auto simp: tab_le_def stamp_le_def)
  then show ?thesis using assms by (simp add: tab_ok_def sorted_wrt_map)
qed

lemma measure_table_swap:
  "map (\<lambda>s. (mt_measure s, mt_beat s)) stamps = map prod.swap (map (\<lambda>s. (mt_beat s, mt_measure s)) stamps)"
  by simp

lemma beat_table_swap:
  "map (\<lambda>s. (mt_beat s, mt_measure s)) stamps = map prod.swap (map (\<lambda>s. (mt_measure s, mt_beat s)) stamps)"
  by simp

lemma conv_ok_sorted:
  assumes srt: "sorted_wrt stamp_le (m_measure_timestamps conv)"
    and ne: "m_measure_timestamps conv \<noteq> []" and rate: "0 < m_last_beat_rate conv"
  shows "conv_ok conv"
proof -
  let ?B = "map (\<lambda>s. (mt_beat s, mt_measure s)) (m_measure_timestamps conv)"
  let ?M = "map (\<lambda>s. (mt_measure s, mt_beat s)) (m_measure_timestamps conv)"
  let ?r = "m_last_beat_rate conv"
  have okB: "tab_ok ?B" by (rule beat_table_ok [OF srt ne])
  have okM: "tab_ok ?M" unfolding measure_table_swap by (rule tab_ok_swap [OF okB])
  have d: "0 < 1 / DEFAULT_BEAT_RATE" "0 < DEFAULT_BEAT_RATE" by (simp_all add: DEFAULT_BEAT_RATE_def)
  have r: "0 < 1 / ?r" using rate by simp
  have neB: "?B \<noteq> []" and neM: "?M \<noteq> []" using ne by simp_all
  have bm: "\<And>b m. beats_to_measures conv b = Some m \<Longrightarrow> measures_to_beats conv m = Some b"
  proof -
    fix b m assume "beats_to_measures conv b = Some m"
    then have "interp ?B (1 / DEFAULT_BEAT_RATE) (1 / ?r) b = Some m"
      by (simp add: beats_to_measures_interp)
    from interp_inverse [OF okB d(1) r this]
    show "measures_to_beats conv m = Some b"
      unfolding measures_to_beats_interp measure_table_swap by simp
  qed
  have mb: "\<And>b m. measures_to_beats conv m = Some b \<Longrightarrow> beats_to_measures conv b = Some m"
  proof -
    fix b m assume "measures_to_beats conv m = Some b"
    then have "interp ?M DEFAULT_BEAT_RATE ?r m = Some b"
      by (simp add: measures_to_beats_interp)
    from interp_inverse [OF okM d(2) rate this]
    show "beats_to_measures conv b = Some m"
      unfolding beats_to_measures_interp by (simp add: comp_def)
  qed
  have t1: "\<And>b. \<exists>m. beats_to_measures conv b = Some m"
    unfolding beats_to_measures_interp by (rule interp_total [OF neB])
  have t2: "\<And>m. \<exists>b. measures_to_beats conv m = Some b"
    unfolding measures_to_beats_interp by (rule interp_total [OF neM])
  have mono: "\<And>b1 b2 m1 m2. beats_to_measures conv b1 = Some m1 \<Longrightarrow>
      beats_to_measures conv b2 = Some m2 \<Longrightarrow> b1 \<le> b2 \<Longrightarrow> m1 \<le> m2"
    unfolding beats_to_measures_interp by (rule interp_mono [OF okB d(1) r])
  show ?thesis unfolding conv_ok_def
  proof (intro conjI allI impI)
    fix b show "\<exists>m. beats_to_measures conv b = Some m \<and> measures_to_beats conv m = Some b"
      using t1 [of b] bm by blast
  next
    fix m show "\<exists>b. measures_to_beats conv m = Some b \<and> beats_to_measures conv b = Some m"
      using t2 [of m] mb by blast
  next
    fix b1 b2 m1 m2
    assume "beats_to_measures conv b1 = Some m1 \<and> beats_to_measures conv b2 = Some m2 \<and> b1 \<le> b2"
    then show "m1 \<le> m2" using mono by blast
  qed
qed

text \<open>
  The converter and the beat rates built from well-formed time signatures and a positive
  resolution, and with them every constructed \<^verbatim>\<open>SpData\<close>, are well formed.
\<close>

lemma measure_timestamps_loop_rate:
  "0 < last_beat_rate \<Longrightarrow>
   list_all (\<lambda>ts. 0 \<le> ts_position ts \<and> ts_position ts < 2 ^ 32
                       \<and> 0 < numerator ts \<and> 0 < denominator ts) tss \<Longrightarrow>
   0 < snd (measure_timestamps_loop resolution stamps last_tick last_beat_rate last_measure tss)"
proof (induction tss arbitrary: stamps last_tick last_beat_rate last_measure)
  case Nil
  then show ?case by simp
next
  case (Cons ts tss)
  have "0 < real_of_int (numerator ts) * DEFAULT_BEAT_RATE / real_of_int (denominator ts)"
    using Cons.prems(2) by (simp add: DEFAULT_BEAT_RATE_def)
  moreover have "list_all (\<lambda>ts. 0 \<le> ts_position ts \<and> ts_position ts < 2 ^ 32
                       \<and> 0 < numerator ts \<and> 0 < denominator ts) tss"
    using Cons.prems(2) by simp
  ultimately show ?case using Cons.IH by (simp add: Let_def)
qed

lemma TimeConverter_ctor_conv_ok:
  assumes "time_sigs_wf (m_time_sigs sync_track)" "0 < resolution"
    "TimeConverter_ctor sync_track resolution = Inr conv"
  shows "conv_ok conv"
proof (rule conv_ok_sorted)
  show "sorted_wrt stamp_le (m_measure_timestamps conv)"
    by (rule TimeConverter_ctor_mono [OF assms])
  show "m_measure_timestamps conv \<noteq> []" using assms(3)
    by (auto simp: TimeConverter_ctor_def split: prod.splits if_splits)
  have "0 < snd (measure_timestamps_loop resolution [] 0 DEFAULT_BEAT_RATE 0 (m_time_sigs sync_track))"
    using assms(1) by (intro measure_timestamps_loop_rate) (simp_all add: DEFAULT_BEAT_RATE_def time_sigs_wf_def)
  then show "0 < m_last_beat_rate conv" using assms(3)
    by (auto simp: TimeConverter_ctor_def split: prod.splits if_splits)
qed

lemma TimeConverter_ctor_time_sigs:
  assumes "TimeConverter_ctor sync_track resolution = Inr conv"
  shows "m_time_sigs sync_track \<noteq> []"
proof
  assume "m_time_sigs sync_track = []"
  then show False using assms by (simp add: TimeConverter_ctor_def)
qed

lemma form_beat_rates_wf:
  assumes "time_sigs_wf (m_time_sigs sync_track)" "0 < resolution" "m_time_sigs sync_track \<noteq> []"
  shows "beat_rates_wf (form_beat_rates resolution sync_track)"
proof -
  have "sorted (map (\<lambda>ts. real_of_int (ts_position ts) / real_of_int resolution) tss)"
    if "sorted (map ts_position tss)" for tss
    using that assms(2) by (induction tss) (auto simp: divide_right_mono)
  moreover have "sorted (map ts_position (m_time_sigs sync_track))"
    using assms(1) by (simp add: time_sigs_wf_def)
  ultimately have "sorted (map (\<lambda>ts. real_of_int (ts_position ts) / real_of_int resolution)
      (m_time_sigs sync_track))" by blast
  then show ?thesis using assms(3)
    by (simp add: beat_rates_wf_def form_beat_rates_def form_beat_rates_loop_map comp_def)
qed

lemma to_whammy_ranges_on_timeline:
  "to_whammy_ranges conv rs = Some ws \<Longrightarrow>
   list_all (\<lambda>w. on_timeline conv (wr_start w) \<and> on_timeline conv (wr_end w)) ws"
proof (induction rs arbitrary: ws)
  case Nil
  then show ?case by simp
next
  case (Cons r rs)
  then show ?case
    by (auto simp: to_whammy_range_def on_timeline_def split: option.splits)
qed

lemma SpData_ctor_wf:
  assumes ctor: "SpData_ctor beats_to_seconds seconds_to_beats note_spans phrases resolution sync_track
             early_whammy lazy_whammy = Inr d"
    and wf: "time_sigs_wf (m_time_sigs sync_track)" and res: "0 < resolution"
  shows "sp_data_wf d"
proof -
  define ranges where "ranges = sort (note_ranges_loop beats_to_seconds seconds_to_beats phrases
      resolution (0.07 * early_whammy) lazy_whammy note_spans)"
  define merged where "merged = (case ranges of [] \<Rightarrow> [] | r # rs \<Rightarrow> merge_loop r rs)"
  from ctor obtain conv where
    conv: "TimeConverter_ctor sync_track (real_of_int resolution) = Inr conv"
    and ws: "to_whammy_ranges conv merged = Some (m_whammy_ranges d)"
    and dc: "m_converter d = conv"
    and dr: "m_beat_rates d = form_beat_rates resolution sync_track"
    by (auto simp: SpData_ctor_def Let_def ranges_def merged_def split: sum.splits option.splits)
  have res': "0 < real_of_int resolution" using res by simp
  have c: "conv_ok conv" by (rule TimeConverter_ctor_conv_ok [OF wf res' conv])
  have b: "beat_rates_wf (m_beat_rates d)"
    unfolding dr by (rule form_beat_rates_wf [OF wf res TimeConverter_ctor_time_sigs [OF conv]])
  have ne: "\<forall>r \<in> set ranges. fst r < snd r"
    using note_ranges_loop_nonempty by (auto simp: ranges_def)
  have srt: "sorted (map fst ranges)" by (simp add: ranges_def sorted_pairs_fst)
  have m: "sorted_wrt (\<lambda>x y. snd x < fst y) merged \<and> (\<forall>r \<in> set merged. fst r < snd r)"
  proof (cases ranges)
    case Nil
    then show ?thesis by (simp add: merged_def)
  next
    case (Cons r rs)
    then show ?thesis using merge_loop_props [of r rs] ne srt by (simp add: merged_def)
  qed
  have mp: "map (\<lambda>w. (beat (wr_start w), beat (wr_end w))) (m_whammy_ranges d) = merged"
    by (rule to_whammy_ranges_beats [OF ws])
  have r1: "sorted_wrt (\<lambda>x y. beat (wr_end x) < beat (wr_start y)) (m_whammy_ranges d)"
    using m unfolding mp [symmetric] by (simp add: sorted_wrt_map)
  have r2: "\<forall>w \<in> set (m_whammy_ranges d). beat (wr_start w) < beat (wr_end w)"
    using m unfolding mp [symmetric] by simp
  have r3: "list_all (\<lambda>w. on_timeline conv (wr_start w) \<and> on_timeline conv (wr_end w)) (m_whammy_ranges d)"
    by (rule to_whammy_ranges_on_timeline [OF ws])
  have "ranges_ok conv (m_whammy_ranges d)"
    using r1 r2 r3 by (auto simp: ranges_ok_def list_all_iff)
  then show ?thesis using c b by (simp add: sp_data_wf_def dc)
qed

section \<open>The example engines\<close>

lemma waltz_sp_data_constructed:
  "SpData_ctor (\<lambda>b. b / 2) (\<lambda>s. s * 2) [(576, 1152)] [\<lparr>sp_position = 500, sp_length = 100\<rparr>] 192
     waltz_sync_track 0 0 = Inr waltz_sp_data"
  by (simp add: SpData_ctor_def TimeConverter_ctor_def DEFAULT_BEAT_RATE_def
      phrase_contains_pos_def to_whammy_range_def beats_to_measures_def lower_bound_def
      to_measure_def form_beat_rates_def SP_GAIN_RATE_def MEASURES_PER_BAR_def
      waltz_sync_track_def waltz_sp_data_def waltz_converter_def)

lemma common_sp_data_constructed:
  "SpData_ctor (\<lambda>b. b / 2) (\<lambda>s. s * 2) [(768, 768)] [\<lparr>sp_position = 700, sp_length = 100\<rparr>] 192
     common_sync_track 0 0 = Inr common_sp_data"
  by (simp add: SpData_ctor_def TimeConverter_ctor_def DEFAULT_BEAT_RATE_def
      phrase_contains_pos_def to_whammy_range_def beats_to_measures_def lower_bound_def
      to_measure_def form_beat_rates_def SP_GAIN_RATE_def MEASURES_PER_BAR_def
      common_sync_track_def common_sp_data_def)

lemma waltz_beats_to_measures:
  "beats_to_measures waltz_converter b = Some (if 0 < b then b / 3 else b / 4)"
  by (simp add: beats_to_measures_def waltz_converter_def lower_bound_def to_measure_def
      DEFAULT_BEAT_RATE_def)

lemma waltz_measures_to_beats:
  "measures_to_beats waltz_converter m = Some (if 0 < m then m * 3 else m * 4)"
  by (simp add: measures_to_beats_def waltz_converter_def lower_bound_def to_beat_def
      DEFAULT_BEAT_RATE_def)

lemma waltz_conv_ok: "conv_ok waltz_converter"
  unfolding conv_ok_def waltz_beats_to_measures waltz_measures_to_beats
  by (auto simp: zero_less_mult_iff zero_less_divide_iff divide_le_cancel frac_le
      intro: order_trans [of "_ / 4" 0 "_ / 3"] divide_nonpos_pos divide_nonneg_pos)

lemma waltz_sp_data_wf: "sp_data_wf waltz_sp_data"
  using waltz_conv_ok
  by (simp add: sp_data_wf_def waltz_sp_data_def beat_rates_wf_def ranges_ok_def on_timeline_def
      waltz_beats_to_measures)

lemma waltz_positions:
  "on_timeline waltz_converter \<lparr>beat = 0, measure_pos = 0\<rparr>"
  "on_timeline waltz_converter \<lparr>beat = 3, measure_pos = 1\<rparr>"
  "on_timeline waltz_converter \<lparr>beat = 9, measure_pos = 3\<rparr>"
  "on_timeline waltz_converter \<lparr>beat = 33, measure_pos = 11\<rparr>"
  by (simp_all add: on_timeline_def waltz_beats_to_measures)

lemma waltz_converter_of: "m_converter waltz_sp_data = waltz_converter"
  by (simp add: waltz_sp_data_def)

lemma waltz_end_point:
  "activation_end_point waltz_sp_data \<lparr>beat = 0, measure_pos = 0\<rparr> \<lparr>beat = 9, measure_pos = 3\<rparr> (3 / 20)
     = Some \<lparr>beat = 6, measure_pos = 2\<rparr>"
  by (simp add: activation_end_point_def waltz_sp_data_def lower_bound_def loop_simps
      MEASURES_PER_BAR_def propagate_over_whammy_range_def whammy_end_point_def
      whammy_propagation_endpoint_def waltz_beats_to_measures)

lemma waltz_gap_exhaustion:
  "propagate_sp_over_whammy_max waltz_sp_data \<lparr>beat = 9, measure_pos = 3\<rparr>
       \<lparr>beat = 33, measure_pos = 11\<rparr> (1 / 2) = Some (- (1 / 2))
   \<and> activation_end_point waltz_sp_data \<lparr>beat = 9, measure_pos = 3\<rparr>
       \<lparr>beat = 33, measure_pos = 11\<rparr> (1 / 2) = Some \<lparr>beat = 21, measure_pos = 7\<rparr>
   \<and> \<not> inside_whammy_range (m_whammy_ranges waltz_sp_data) 21"
  by (simp add: propagate_sp_over_whammy_max_def activation_end_point_def waltz_sp_data_def
      lower_bound_def loop_simps drain_def MEASURES_PER_BAR_def drain_end_point_def
      waltz_measures_to_beats inside_whammy_range_def)

section \<open>The claims on the integration\<close>

text \<open>
  C3, as stated, fails: in 4/4 with a whammy range from beat 4 to beat 8, an activation from
  beat 0 with an eighth of a bar reaches balance zero exactly at beat 4, the start of the range,
  where whammy then gains more than the drain takes; \<^verbatim>\<open>activation_end_point\<close> returns the end,
  beat 8, not the earlier position where the balance is exactly zero.
\<close>

theorem C3_counterexample:
  "activation_end_point common_sp_data \<lparr>beat = 0, measure_pos = 0\<rparr> \<lparr>beat = 8, measure_pos = 2\<rparr> (1 / 8)
     = Some \<lparr>beat = 8, measure_pos = 2\<rparr>
   \<and> propagate_sp_over_whammy_max common_sp_data \<lparr>beat = 0, measure_pos = 0\<rparr>
       \<lparr>beat = 4, measure_pos = 1\<rparr> (1 / 8) = Some 0
   \<and> beats_to_measures (m_converter common_sp_data) 4 = Some 1
   \<and> (4 :: real) < 8"
  by (simp add: activation_end_point_def propagate_sp_over_whammy_max_def common_sp_data_def
      lower_bound_def loop_simps MEASURES_PER_BAR_def drain_def propagate_over_whammy_range_def
      beats_to_measures_def to_measure_def)

text \<open>
  C3, amended: for a well-formed engine, positions \<open>start\<close> and \<open>end\<close> on the timeline with
  \<open>start\<close> not after \<open>end\<close>, and \<open>sp\<close> in \<open>[0, 1]\<close>, \<^verbatim>\<open>activation_end_point\<close> returns
  a position \<open>p\<close> on the timeline, between \<open>start\<close> and \<open>end\<close> in beats and at most \<open>end\<close>
  in measures, such that the balance \<^verbatim>\<open>propagate_sp_over_whammy_max(start, x, sp)\<close> is not
  negative exactly at the positions \<open>x\<close> of the interval up to \<open>p\<close>, and is zero at \<open>p\<close>
  unless \<open>p\<close> is \<open>end\<close>. So \<open>p\<close> is where the balance would drop below zero, and it is
  \<open>end\<close> when the balance never does; a zero that the balance only touches does not stop
  the activation.
\<close>

theorem C3_activation_end_point:
  assumes "sp_data_wf d"
    and "on_timeline (m_converter d) start" and "on_timeline (m_converter d) end_pos"
    and "beat start \<le> beat end_pos" and "0 \<le> sp" and "sp \<le> 1"
  shows "\<exists>p. activation_end_point d start end_pos sp = Some p
           \<and> on_timeline (m_converter d) p
           \<and> beat start \<le> beat p \<and> beat p \<le> beat end_pos \<and> measure_pos p \<le> measure_pos end_pos
           \<and> (p = end_pos \<or> propagate_sp_over_whammy_max d start p sp = Some 0)
           \<and> (\<forall>x. on_timeline (m_converter d) x \<and> beat start \<le> beat x \<and> beat x \<le> beat end_pos \<longrightarrow>
                  (\<exists>r. propagate_sp_over_whammy_max d start x sp = Some r
                       \<and> (0 \<le> r \<longleftrightarrow> beat x \<le> beat p)))"
proof -
  from activation_end_point_crossing [OF assms]
  obtain p where p: "activation_end_point d start end_pos sp = Some p"
      "crossing_spec (m_converter d) start end_pos (\<lambda>x. propagate_sp_over_whammy_max d start x sp) p"
    by blast
  have c: "conv_ok (m_converter d)" using assms(1) by (simp add: sp_data_wf_def)
  have tp: "on_timeline (m_converter d) p" "beat p \<le> beat end_pos"
    using p(2) by (simp_all add: crossing_spec_def)
  have "measure_pos p \<le> measure_pos end_pos" using timeline_le [OF c tp(1) assms(3)] tp(2) by simp
  then show ?thesis using p unfolding crossing_spec_def by blast
qed

theorem C3_activation_end_point_witness:
  "sp_data_wf waltz_sp_data
   \<and> activation_end_point waltz_sp_data \<lparr>beat = 0, measure_pos = 0\<rparr> \<lparr>beat = 9, measure_pos = 3\<rparr> (3 / 20)
       = Some \<lparr>beat = 6, measure_pos = 2\<rparr>
   \<and> propagate_sp_over_whammy_max waltz_sp_data \<lparr>beat = 0, measure_pos = 0\<rparr>
       \<lparr>beat = 6, measure_pos = 2\<rparr> (3 / 20) = Some 0"
proof -
  have t: "on_timeline (m_converter waltz_sp_data) \<lparr>beat = 0, measure_pos = 0\<rparr>"
      "on_timeline (m_converter waltz_sp_data) \<lparr>beat = 9, measure_pos = 3\<rparr>"
    using waltz_positions by (simp_all add: waltz_converter_of)
  from C3_activation_end_point [OF waltz_sp_data_wf t, of "3 / 20"]
  obtain p where p: "activation_end_point waltz_sp_data \<lparr>beat = 0, measure_pos = 0\<rparr>
        \<lparr>beat = 9, measure_pos = 3\<rparr> (3 / 20) = Some p"
      "p = \<lparr>beat = 9, measure_pos = 3\<rparr>
       \<or> propagate_sp_over_whammy_max waltz_sp_data \<lparr>beat = 0, measure_pos = 0\<rparr> p (3 / 20) = Some 0"
    by auto
  have "p = \<lparr>beat = 6, measure_pos = 2\<rparr>" using p(1) waltz_end_point by simp
  then show ?thesis using p(2) waltz_end_point waltz_sp_data_wf by simp
qed



text \<open>
  C10: under the same conditions, when the result of \<^verbatim>\<open>propagate_sp_over_whammy_max\<close> is
  negative and the position where SP runs out is inside a whammy range, the result is \<open>- 1\<close>;
  when that position is in a stretch without whammy, the result is the balance at the end of
  that stretch, the drain from the position where SP ran out to there.
\<close>

theorem C10_exhaustion_value:
  assumes "sp_data_wf d"
    and "on_timeline (m_converter d) start" and "on_timeline (m_converter d) end_pos"
    and "beat start \<le> beat end_pos" and "0 \<le> sp" and "sp \<le> 1"
  shows "\<exists>r p. propagate_sp_over_whammy_max d start end_pos sp = Some r
           \<and> activation_end_point d start end_pos sp = Some p
           \<and> (r < 0 \<longrightarrow>
                 (if inside_whammy_range (m_whammy_ranges d) (beat p) then r = - 1
                  else r = - ((measure_pos (gap_end (m_whammy_ranges d) p end_pos) - measure_pos p)
                              / MEASURES_PER_BAR)))"
proof -
  let ?P = "\<lambda>x. beat (wr_end x) \<le> beat start"
  let ?all = "m_whammy_ranges d"
  let ?ws = "drop (lower_bound ?P ?all) ?all"
  have c: "conv_ok (m_converter d)" and r: "beat_rates_wf (m_beat_rates d)"
    and wa: "ranges_ok (m_converter d) ?all" and w: "ranges_ok (m_converter d) ?ws"
    using assms(1) by (simp_all add: sp_data_wf_def ranges_ok_drop)
  from end_loop_value [OF c r assms(3) w ranges_suffix_hd assms(2) assms(4) assms(5) assms(6)]
  obtain p v where pv: "activation_end_loop (m_converter d) (m_beat_rates d) ?ws start end_pos sp = Some p"
      "whammy_max_loop (m_beat_rates d) ?ws start end_pos sp = Some v"
      "v < 0 \<longrightarrow> (if inside_whammy_range ?ws (beat p) then v = - 1
                        else v = drain p (gap_end ?ws p end_pos) 0)"
    by blast
  from end_loop_crossing [OF c r assms(3) w ranges_suffix_hd assms(2) assms(4) assms(5) assms(6)] pv(1)
  have sp: "beat start \<le> beat p" by (auto simp: crossing_spec_def)
  have split: "?all = takeWhile ?P ?all @ ?ws" by (simp add: drop_lower_bound)
  have before: "\<forall>x \<in> set (takeWhile ?P ?all). beat (wr_end x) \<le> beat p \<and> beat (wr_start x) < beat (wr_end x)"
  proof
    fix x assume x: "x \<in> set (takeWhile ?P ?all)"
    then have "?P x" by (rule set_takeWhileD [THEN conjunct2])
    moreover have "x \<in> set ?all" using x by (rule set_takeWhileD [THEN conjunct1])
    then have "beat (wr_start x) < beat (wr_end x)" using wa by (simp add: ranges_ok_def list_all_iff)
    ultimately show "beat (wr_end x) \<le> beat p \<and> beat (wr_start x) < beat (wr_end x)" using sp by simp
  qed
  have "inside_whammy_range ?all (beat p) = inside_whammy_range (takeWhile ?P ?all @ ?ws) (beat p)"
    using split by simp
  also have "\<dots> = inside_whammy_range ?ws (beat p)"
    using before by (auto simp: inside_whammy_range_def list_ex_iff)
  finally have ins: "inside_whammy_range ?all (beat p) = inside_whammy_range ?ws (beat p)" .
  have "find (\<lambda>w. beat p < beat (wr_start w)) (takeWhile ?P ?all @ ?ws)
        = find (\<lambda>w. beat p < beat (wr_start w)) ?ws"
    using before by (intro find_append_skip) auto
  then have ge: "gap_end ?all p end_pos = gap_end ?ws p end_pos"
    using split by (simp add: gap_end_def)
  have dr: "drain p q 0 = - ((measure_pos q - measure_pos p) / MEASURES_PER_BAR)" for q
    by (simp add: drain_def)
  have v: "v < 0 \<longrightarrow>
      (if inside_whammy_range ?all (beat p) then v = - 1
       else v = - ((measure_pos (gap_end ?all p end_pos) - measure_pos p) / MEASURES_PER_BAR))"
    using pv(3) unfolding ins ge dr .
  have "propagate_sp_over_whammy_max d start end_pos sp = Some v"
    using pv(2) by (simp add: propagate_sp_over_whammy_max_def Let_def)
  moreover have "activation_end_point d start end_pos sp = Some p"
    using pv(1) by (simp add: activation_end_point_def Let_def)
  ultimately show ?thesis using v by blast
qed

theorem C10_exhaustion_value_witness:
  "sp_data_wf waltz_sp_data
   \<and> activation_end_point waltz_sp_data \<lparr>beat = 3, measure_pos = 1\<rparr> \<lparr>beat = 9, measure_pos = 3\<rparr> (1 / 40)
       = Some \<lparr>beat = 6, measure_pos = 2\<rparr>
   \<and> inside_whammy_range (m_whammy_ranges waltz_sp_data) 6
   \<and> propagate_sp_over_whammy_max waltz_sp_data \<lparr>beat = 3, measure_pos = 1\<rparr>
       \<lparr>beat = 9, measure_pos = 3\<rparr> (1 / 40) = Some (- 1)"
proof -
  have t: "on_timeline (m_converter waltz_sp_data) \<lparr>beat = 3, measure_pos = 1\<rparr>"
      "on_timeline (m_converter waltz_sp_data) \<lparr>beat = 9, measure_pos = 3\<rparr>"
    using waltz_positions by (simp_all add: waltz_converter_of)
  have ep: "activation_end_point waltz_sp_data \<lparr>beat = 3, measure_pos = 1\<rparr>
      \<lparr>beat = 9, measure_pos = 3\<rparr> (1 / 40) = Some \<lparr>beat = 6, measure_pos = 2\<rparr>"
    by (simp add: activation_end_point_def waltz_sp_data_def lower_bound_def loop_simps
        MEASURES_PER_BAR_def propagate_over_whammy_range_def whammy_end_point_def
        whammy_propagation_endpoint_def waltz_beats_to_measures)
  have ins: "inside_whammy_range (m_whammy_ranges waltz_sp_data) 6"
    by (simp add: inside_whammy_range_def waltz_sp_data_def)
  have neg: "\<exists>v. propagate_sp_over_whammy_max waltz_sp_data \<lparr>beat = 3, measure_pos = 1\<rparr>
       \<lparr>beat = 9, measure_pos = 3\<rparr> (1 / 40) = Some v \<and> v < 0"
    by (simp add: propagate_sp_over_whammy_max_def waltz_sp_data_def lower_bound_def loop_simps
        propagate_over_whammy_range_def)
  from C10_exhaustion_value [OF waltz_sp_data_wf t, of "1 / 40"]
  obtain r p where rp: "propagate_sp_over_whammy_max waltz_sp_data \<lparr>beat = 3, measure_pos = 1\<rparr>
        \<lparr>beat = 9, measure_pos = 3\<rparr> (1 / 40) = Some r"
      "activation_end_point waltz_sp_data \<lparr>beat = 3, measure_pos = 1\<rparr>
        \<lparr>beat = 9, measure_pos = 3\<rparr> (1 / 40) = Some p"
      "r < 0 \<longrightarrow> (if inside_whammy_range (m_whammy_ranges waltz_sp_data) (beat p) then r = - 1
                  else r = - ((measure_pos (gap_end (m_whammy_ranges waltz_sp_data) p
                                 \<lparr>beat = 9, measure_pos = 3\<rparr>) - measure_pos p) / MEASURES_PER_BAR))"
    by auto
  have p: "p = \<lparr>beat = 6, measure_pos = 2\<rparr>" using rp(2) ep by simp
  have "r < 0" using neg rp(1) by auto
  then have "r = - 1" using rp(3) ins unfolding p by simp
  then show ?thesis using rp(1) ep ins waltz_sp_data_wf by simp
qed

end
